theory Spec2Isabelle
  imports Main "HOL-Library.AList" "HOL-Library.Char_ord" "HOL-Library.List_Lexorder"
begin

section \<open>Control-flow and reaching-definitions analyzer (Lab_7/analyzer.py)\<close>

text \<open>
  The analyzer works on a list of statement lines. A line is a \<^typ>\<open>string\<close>, whose
  characters are the code points 0 to 255 (Latin-1) of a Python \<open>str\<close>; the character
  classes of the regular expressions and of \<open>str.strip\<close> are Python's classes on these
  code points. Line and block positions are natural numbers; the integers the program
  computes with (\<open>end_line\<close>, the metrics) are \<^typ>\<open>int\<close>. A Python \<open>dict\<close> is an
  association list in insertion order: reading \<open>d[k]\<close> is \<open>dict_get\<close> (a missing key is
  the error \<open>KeyError\<close>), writing \<open>d[k] = v\<close> is \<^const>\<open>AList.update\<close> (an existing
  key keeps its position, a new key goes to the end). A Python \<open>set\<close> is a HOL set.
\<close>

subsection \<open>Errors and dictionaries\<close>

datatype error = IndexError | KeyError

fun dict_get :: "('k \<times> 'v) list \<Rightarrow> 'k \<Rightarrow> error + 'v" where
  "dict_get [] k = Inl KeyError"
| "dict_get ((k', v) # d) k = (if k = k' then Inr v else dict_get d k)"

fun bindE :: "error + 'a \<Rightarrow> ('a \<Rightarrow> error + 'b) \<Rightarrow> error + 'b" where
  "bindE (Inl e) f = Inl e"
| "bindE (Inr v) f = f v"

text \<open>A \<open>for\<close> loop whose body may raise: the first error ends the loop.\<close>

fun foldE :: "('a \<Rightarrow> 's \<Rightarrow> error + 's) \<Rightarrow> 'a list \<Rightarrow> 's \<Rightarrow> error + 's" where
  "foldE f [] s = Inr s"
| "foldE f (x # xs) s = bindE (f x s) (foldE f xs)"

subsection \<open>Strings and the regular expressions of the source\<close>

text \<open>
  \<open>\s\<close> and \<open>str.strip\<close>: the code points Python counts as whitespace, which are
  tab to carriage return, the four separators 28 to 31, the space, NEL (133) and the
  no-break space (160).
\<close>

definition is_space :: "char \<Rightarrow> bool" where
  "is_space c = (of_char c \<in> {9::nat, 10, 11, 12, 13, 28, 29, 30, 31, 32, 133, 160})"

text \<open>
  \<open>\w\<close>: the underscore and the code points Python counts as alphanumeric, which are the
  ASCII digits and letters and, above 127, the ordinal indicators (170, 186), the
  superscript digits (178, 179, 185), the micro sign (181), the fractions (188 to 190)
  and the letters 192 to 255 without the multiplication and division signs (215, 247).
\<close>

definition is_word :: "char \<Rightarrow> bool" where
  "is_word c = (let n = of_char c :: nat in
     (48 \<le> n \<and> n \<le> 57) \<or> (65 \<le> n \<and> n \<le> 90) \<or> n = 95 \<or> (97 \<le> n \<and> n \<le> 122)
     \<or> n = 170 \<or> (178 \<le> n \<and> n \<le> 179) \<or> n = 181 \<or> (185 \<le> n \<and> n \<le> 186)
     \<or> (188 \<le> n \<and> n \<le> 190) \<or> (192 \<le> n \<and> n \<le> 214) \<or> (216 \<le> n \<and> n \<le> 246)
     \<or> (248 \<le> n \<and> n \<le> 255))"

text \<open>\<open>s.startswith(p)\<close>, also a regular expression \<open>^p\<close> for a literal \<open>p\<close>.\<close>

fun starts_with :: "string \<Rightarrow> string \<Rightarrow> bool" where
  "starts_with [] s = True"
| "starts_with (p # ps) [] = False"
| "starts_with (p # ps) (c # cs) = (p = c \<and> starts_with ps cs)"

text \<open>\<open>sub in s\<close>.\<close>

fun contains :: "string \<Rightarrow> string \<Rightarrow> bool" where
  "contains sub [] = (sub = [])"
| "contains sub (c # cs) = (starts_with sub (c # cs) \<or> contains sub cs)"

definition strip :: "string \<Rightarrow> string" where
  "strip s = rev (dropWhile is_space (rev (dropWhile is_space s)))"

text \<open>\<open>re.match(r'^(k1|k2|..)\s*\(', line)\<close>.\<close>

definition match_kw_paren :: "string list \<Rightarrow> string \<Rightarrow> bool" where
  "match_kw_paren kws line =
     list_ex (\<lambda>kw. starts_with kw line \<and>
                   starts_with ''('' (dropWhile is_space (drop (length kw) line))) kws"

text \<open>\<open>re.match(r'^(k1|k2|..)', line)\<close>.\<close>

definition match_kw :: "string list \<Rightarrow> string \<Rightarrow> bool" where
  "match_kw kws line = list_ex (\<lambda>kw. starts_with kw line) kws"

text \<open>
  \<open>re.match(r'^(k1|k2|..)\b', line)\<close>: every keyword ends in a word character, so
  the boundary holds when the line ends there or goes on with a non-word character.
\<close>

definition match_kw_boundary :: "string list \<Rightarrow> string \<Rightarrow> bool" where
  "match_kw_boundary kws line =
     list_ex (\<lambda>kw. starts_with kw line \<and>
                   (case drop (length kw) line of [] \<Rightarrow> True | c # _ \<Rightarrow> \<not> is_word c)) kws"

text \<open>
  \<open>goto\s+(\w+);\<close> matched at the start of \<open>s\<close>, giving group 1. Both repetitions are
  greedy and giving characters back never helps: after fewer spaces comes a space, after
  fewer word characters comes a word character.
\<close>

definition match_goto_at :: "string \<Rightarrow> string option" where
  "match_goto_at s =
     (if starts_with ''goto'' s then
        (let r = drop 4 s; r' = dropWhile is_space r; label = takeWhile is_word r' in
         if r' \<noteq> r \<and> label \<noteq> [] \<and> starts_with '';'' (dropWhile is_word r')
         then Some label else None)
      else None)"

text \<open>\<open>re.search(r'goto\s+(\w+);', line)\<close>: the leftmost match.\<close>

fun search_goto :: "string \<Rightarrow> string option" where
  "search_goto [] = None"
| "search_goto (c # cs) =
     (case match_goto_at (c # cs) of Some label \<Rightarrow> Some label | None \<Rightarrow> search_goto cs)"

text \<open>\<open>f"{n}"\<close> for a non-negative integer.\<close>

definition digit_char :: "nat \<Rightarrow> char" where
  "digit_char d = char_of (48 + d)"

fun str_nat :: "nat \<Rightarrow> string" where
  "str_nat n = (if n < 10 then [digit_char n] else str_nat (n div 10) @ [digit_char (n mod 10)])"

declare str_nat.simps [simp del]

subsection \<open>Leader detection\<close>

text \<open>The inner loop of the goto rule: every line that begins with \<open>label:\<close>.\<close>

definition goto_targets :: "string list \<Rightarrow> string \<Rightarrow> nat set \<Rightarrow> nat set" where
  "goto_targets lines label leaders =
     fold (\<lambda>(j, target_line) ls. if starts_with (label @ '':'') target_line then insert j ls else ls)
          (enumerate 0 lines) leaders"

text \<open>The body of the first loop of \<open>find_leaders\<close>, for line \<open>i\<close>.\<close>

definition leader_step :: "string list \<Rightarrow> nat \<times> string \<Rightarrow> nat set \<Rightarrow> nat set" where
  "leader_step lines = (\<lambda>(i, line) leaders.
     let l1 = (if match_kw_paren [''if'', ''while'', ''for'', ''switch''] line
                  \<or> match_kw [''else'', ''case'', ''default''] line
               then insert i leaders else leaders);
         l2 = (case search_goto line of
                 None \<Rightarrow> l1
               | Some label \<Rightarrow> goto_targets lines label l1)
     in if (match_kw_boundary [''if'', ''while'', ''for'', ''switch'', ''goto'', ''return'', ''break''] line
            \<or> (starts_with ''}'' line \<and> 0 < i))
           \<and> i + 1 < length lines \<and> \<not> starts_with ''}'' (lines ! (i + 1))
        then insert (i + 1) l2 else l2)"

text \<open>The body of the second loop: the line after \<open>} else {\<close>.\<close>

definition else_step :: "string list \<Rightarrow> nat \<times> string \<Rightarrow> nat set \<Rightarrow> nat set" where
  "else_step lines = (\<lambda>(i, line) leaders.
     if strip line = ''} else {'' \<and> i + 1 < length lines then insert (i + 1) leaders else leaders)"

definition find_leaders :: "string list \<Rightarrow> nat list" where
  "find_leaders lines =
     sorted_list_of_set
       (fold (else_step lines) (enumerate 0 lines)
          (fold (leader_step lines) (enumerate 0 lines) {0}))"

subsection \<open>Basic blocks\<close>

record block =
  code :: "string list"
  start_line :: int
  end_line :: int

text \<open>\<open>lines[a:b]\<close> for non-negative \<open>a\<close> and \<open>b\<close>.\<close>

definition slice :: "'a list \<Rightarrow> nat \<Rightarrow> nat \<Rightarrow> 'a list" where
  "slice xs a b = take (b - a) (drop a xs)"

definition block_name :: "nat \<Rightarrow> string" where
  "block_name i = ''B'' @ str_nat i"

text \<open>The entry that the loop body stores under \<open>f"B{i}"\<close> for the leader at position \<open>i\<close>.\<close>

definition make_block :: "string list \<Rightarrow> nat list \<Rightarrow> nat \<Rightarrow> nat \<Rightarrow> block" where
  "make_block lines leaders i start_index =
     (let end_index = (if i + 1 < length leaders then leaders ! (i + 1) else length lines);
          block_code = slice lines start_index end_index
      in \<lparr>code = block_code, start_line = int start_index, end_line = int end_index - 1\<rparr>)"

definition create_basic_blocks :: "string list \<Rightarrow> nat list \<Rightarrow> (string \<times> block) list" where
  "create_basic_blocks lines leaders =
     fold (\<lambda>(i, start_index) blocks.
             AList.update (block_name i) (make_block lines leaders i start_index) blocks)
          (enumerate 0 leaders) []"

subsection \<open>Control-flow graph\<close>

text \<open>\<open>code[-1]\<close> and \<open>code[0]\<close>: an empty list raises \<open>IndexError\<close>.\<close>

definition last_line :: "string list \<Rightarrow> error + string" where
  "last_line c = (if c = [] then Inl IndexError else Inr (last c))"

definition first_line :: "string list \<Rightarrow> error + string" where
  "first_line c = (case c of [] \<Rightarrow> Inl IndexError | l # _ \<Rightarrow> Inr l)"

text \<open>
  The \<open>for j in range(i + 1, len(block_ids))\<close> loop with its \<open>break\<close> and \<open>else\<close>,
  over the keys from position \<open>i + 1\<close> on: the first block whose first line contains
  \<open>else\<close>, if any.
\<close>

fun find_else :: "(string \<times> block) list \<Rightarrow> string list \<Rightarrow> error + string option" where
  "find_else blocks [] = Inr None"
| "find_else blocks (k # ks) =
     bindE (dict_get blocks k) (\<lambda>b.
     bindE (first_line (code b)) (\<lambda>l.
       if contains ''else'' l then Inr (Some k) else find_else blocks ks))"

text \<open>The edges that the loop body appends to \<open>cfg[block_id]\<close> for the block at position \<open>i\<close>.\<close>

definition block_edges :: "(string \<times> block) list \<Rightarrow> nat \<Rightarrow> string \<Rightarrow> error + string list" where
  "block_edges blocks i bid =
     (let block_ids = map fst blocks; n = length block_ids in
      bindE (dict_get blocks bid) (\<lambda>b.
      bindE (last_line (code b)) (\<lambda>last_line_of_block.
        if match_kw_paren [''if'', ''while'', ''for''] last_line_of_block then
          (let true_edge = (if i + 1 < n then [block_ids ! (i + 1)] else []) in
           bindE (find_else blocks (drop (i + 1) block_ids)) (\<lambda>r.
             case r of
               Some k \<Rightarrow> Inr (true_edge @ [k])
             | None \<Rightarrow> Inr (true_edge @ (if i + 2 < n then [block_ids ! (i + 2)] else []))))
        else
          bindE (first_line (code b)) (\<lambda>first_line_of_block.
            if contains ''else'' first_line_of_block \<or> contains ''case'' first_line_of_block then
              Inr (if i + 2 < n then [block_ids ! (i + 2)]
                   else if i + 1 < n then [block_ids ! (i + 1)] else [])
            else if \<not> list_ex (\<lambda>kw. contains kw last_line_of_block) [''return'', ''break'', ''goto'']
                    \<and> i + 1 < n
              then Inr [block_ids ! (i + 1)]
              else Inr []))))"

text \<open>\<open>cfg[k].append(..)\<close> for each new edge; \<open>cfg[k]\<close> exists for every key of \<open>blocks\<close>.\<close>

definition append_edges :: "string \<Rightarrow> string list \<Rightarrow> (string \<times> string list) list
    \<Rightarrow> error + (string \<times> string list) list" where
  "append_edges k es cfg = bindE (dict_get cfg k) (\<lambda>old. Inr (AList.update k (old @ es) cfg))"

definition build_cfg :: "(string \<times> block) list \<Rightarrow> error + (string \<times> string list) list" where
  "build_cfg blocks =
     bindE (foldE (\<lambda>(i, bid) cfg. bindE (block_edges blocks i bid) (\<lambda>es. append_edges bid es cfg))
              (enumerate 0 (map fst blocks))
              (map (\<lambda>(bid, b). (bid, [])) blocks))
       (\<lambda>cfg. Inr (map (\<lambda>(bid, es). (bid, sort (remdups es))) cfg))"

subsection \<open>Metrics\<close>

definition calculate_metrics :: "(string \<times> string list) list \<Rightarrow> int \<times> int \<times> int" where
  "calculate_metrics cfg =
     (let num_nodes = int (length cfg);
          num_edges = int (sum_list (map (\<lambda>(bid, edges). length edges) cfg));
          complexity = num_edges - num_nodes + 2
      in (num_nodes, num_edges, complexity))"

subsection \<open>Definitions\<close>

text \<open>
  \<open>(\[\w+\])*\<close> at the start of \<open>s\<close>, giving what follows the subscripts. The source
  writes this group twice in a row, which accepts the same texts as writing it once.
\<close>

function skip_subscripts :: "string \<Rightarrow> string" where
  "skip_subscripts [] = []"
| "skip_subscripts (c # cs) =
     (if c = CHR ''['' \<and> takeWhile is_word cs \<noteq> [] \<and> starts_with '']'' (dropWhile is_word cs)
      then skip_subscripts (drop 1 (dropWhile is_word cs)) else c # cs)"
  by pat_completeness auto
termination
  by (relation "measure length")
     (auto simp: less_Suc_eq_le intro: order_trans [OF diff_le_self length_dropWhile_le])

text \<open>
  \<open>re.match(r'^\s*(\w+(\[\w+\])*(\[\w+\])*)\s*(=|\+\+|--|\+=|-=)', line)\<close>, giving
  \<open>match.group(1).split('[')[0]\<close>: the identifier before the subscripts.
\<close>

definition match_definition :: "string \<Rightarrow> string option" where
  "match_definition l =
     (let s = dropWhile is_space l;
          var_name = takeWhile is_word s;
          r = dropWhile is_space (skip_subscripts (dropWhile is_word s))
      in if var_name \<noteq> [] \<and> list_ex (\<lambda>op. starts_with op r) [''='', ''++'', ''--'', ''+='', ''-='']
         then Some var_name else None)"

record definition_info =
  var :: string
  block :: string
  line :: string

type_synonym definitions = "(string \<times> definition_info) list"
type_synonym var_index = "(string \<times> string set) list"

definition def_name :: "nat \<Rightarrow> string" where
  "def_name n = ''d'' @ str_nat n"

text \<open>The body of the inner loop of \<open>find_definitions\<close>, for one line of block \<open>bid\<close>.\<close>

definition def_step :: "string \<Rightarrow> string \<Rightarrow> definitions \<times> nat \<times> var_index
    \<Rightarrow> definitions \<times> nat \<times> var_index" where
  "def_step bid l = (\<lambda>(definitions, def_count, var_to_defs).
     case match_definition l of
       None \<Rightarrow> (definitions, def_count, var_to_defs)
     | Some var_name \<Rightarrow>
         let def_id = def_name def_count;
             old = (case map_of var_to_defs var_name of None \<Rightarrow> {} | Some ds \<Rightarrow> ds)
         in (AList.update def_id \<lparr>var = var_name, block = bid, line = l\<rparr> definitions,
             def_count + 1,
             AList.update var_name (insert def_id old) var_to_defs))"

definition find_definitions :: "(string \<times> block) list \<Rightarrow> definitions \<times> var_index" where
  "find_definitions blocks =
     (case fold (\<lambda>(bid, block_info) st. fold (def_step bid) (code block_info) st) blocks ([], 1, []) of
        (definitions, def_count, var_to_defs) \<Rightarrow> (definitions, var_to_defs))"

subsection \<open>Gen and kill sets\<close>

type_synonym set_dict = "(string \<times> string set) list"

text \<open>The \<open>for b_id in blocks\<close> loop: the blocks that generate \<open>def_id\<close> kill \<open>other_defs\<close>.\<close>

definition kill_step :: "string \<Rightarrow> string set \<Rightarrow> set_dict \<Rightarrow> string \<Rightarrow> set_dict \<Rightarrow> error + set_dict" where
  "kill_step def_id other_defs gen b_id kill =
     bindE (dict_get gen b_id) (\<lambda>g.
       if def_id \<in> g
       then bindE (dict_get kill b_id) (\<lambda>k. Inr (AList.update b_id (k \<union> other_defs) kill))
       else Inr kill)"

text \<open>The body of the loop over \<open>definitions.items()\<close>.\<close>

definition gen_kill_step :: "string list \<Rightarrow> var_index \<Rightarrow> string \<times> definition_info
    \<Rightarrow> set_dict \<times> set_dict \<Rightarrow> error + set_dict \<times> set_dict" where
  "gen_kill_step bids var_to_defs = (\<lambda>(def_id, def_info) (gen, kill).
     bindE (dict_get gen (block def_info)) (\<lambda>g.
       let gen' = AList.update (block def_info) (insert def_id g) gen in
       bindE (dict_get var_to_defs (var def_info)) (\<lambda>ds.
         let other_defs = ds - {def_id} in
         bindE (foldE (kill_step def_id other_defs gen') bids kill) (\<lambda>kill'.
           Inr (gen', kill')))))"

definition compute_gen_kill :: "(string \<times> block) list \<Rightarrow> definitions \<Rightarrow> var_index
    \<Rightarrow> error + set_dict \<times> set_dict" where
  "compute_gen_kill blocks definitions var_to_defs =
     foldE (gen_kill_step (map fst blocks) var_to_defs) definitions
       (map (\<lambda>(bid, b). (bid, {})) blocks, map (\<lambda>(bid, b). (bid, {})) blocks)"

subsection \<open>Reaching definitions\<close>

definition get_predecessors :: "(string \<times> string list) list \<Rightarrow> error + (string \<times> string list) list" where
  "get_predecessors cfg =
     foldE (\<lambda>(node, edges) predecessors.
              foldE (\<lambda>edge ps. bindE (dict_get ps edge) (\<lambda>l. Inr (AList.update edge (l @ [node]) ps)))
                    edges predecessors)
           cfg (map (\<lambda>(bid, es). (bid, [])) cfg)"

text \<open>The body of the \<open>for block_id in blocks\<close> loop of one pass.\<close>

definition rd_block :: "(string \<times> string list) list \<Rightarrow> set_dict \<Rightarrow> set_dict \<Rightarrow> string
    \<Rightarrow> set_dict \<times> set_dict \<times> bool \<Rightarrow> error + set_dict \<times> set_dict \<times> bool" where
  "rd_block predecessors gen kill bid = (\<lambda>(in_sets, out_sets, changed).
     bindE (dict_get predecessors bid) (\<lambda>ps.
     bindE (foldE (\<lambda>p new_in. bindE (dict_get out_sets p) (\<lambda>out_p. Inr (new_in \<union> out_p))) ps {}) (\<lambda>new_in.
     bindE (dict_get out_sets bid) (\<lambda>old_out.
     bindE (dict_get gen bid) (\<lambda>g.
     bindE (dict_get kill bid) (\<lambda>k.
       let new_out = g \<union> (new_in - k) in
       Inr (AList.update bid new_in in_sets, AList.update bid new_out out_sets,
            changed \<or> new_out \<noteq> old_out)))))))"

text \<open>One pass of the \<open>while\<close> loop over all blocks, starting with \<open>changed = False\<close>.\<close>

definition rd_pass :: "string list \<Rightarrow> (string \<times> string list) list \<Rightarrow> set_dict \<Rightarrow> set_dict
    \<Rightarrow> set_dict \<Rightarrow> set_dict \<Rightarrow> error + set_dict \<times> set_dict \<times> bool" where
  "rd_pass bids predecessors gen kill in_sets out_sets =
     foldE (rd_block predecessors gen kill) bids (in_sets, out_sets, False)"

text \<open>
  The \<open>while changed\<close> loop, entered with \<open>changed = True\<close>. A loop that never ends has
  the value \<open>None\<close>; the result carries the number of passes made.
\<close>

partial_function (option) rd_loop :: "string list \<Rightarrow> (string \<times> string list) list \<Rightarrow> set_dict
    \<Rightarrow> set_dict \<Rightarrow> nat \<Rightarrow> set_dict \<Rightarrow> set_dict \<Rightarrow> (error + nat \<times> set_dict \<times> set_dict) option" where
  "rd_loop bids predecessors gen kill iteration in_sets out_sets =
     (case rd_pass bids predecessors gen kill in_sets out_sets of
        Inl e \<Rightarrow> Some (Inl e)
      | Inr (in_sets', out_sets', changed) \<Rightarrow>
          if changed then rd_loop bids predecessors gen kill (iteration + 1) in_sets' out_sets'
          else Some (Inr (iteration + 1, in_sets', out_sets')))"

declare rd_loop.simps [code]

definition reaching_definitions_analysis :: "(string \<times> block) list \<Rightarrow> (string \<times> string list) list
    \<Rightarrow> set_dict \<Rightarrow> set_dict \<Rightarrow> (error + set_dict \<times> set_dict) option" where
  "reaching_definitions_analysis blocks cfg gen kill =
     (case get_predecessors cfg of
        Inl e \<Rightarrow> Some (Inl e)
      | Inr predecessors \<Rightarrow>
          map_option (map_sum id (\<lambda>(iteration, in_sets, out_sets). (in_sets, out_sets)))
            (rd_loop (map fst blocks) predecessors gen kill 0
               (map (\<lambda>(bid, b). (bid, {})) blocks) (map (\<lambda>(bid, b). (bid, {})) blocks)))"

subsection \<open>Invariants and closed forms used in the proofs\<close>

text \<open>What every leader set satisfies on a non-empty input.\<close>

definition leaders_ok :: "string list \<Rightarrow> nat set \<Rightarrow> bool" where
  "leaders_ok lines S \<longleftrightarrow> 0 \<in> S \<and> finite S \<and> S \<subseteq> {..<length lines}"

text \<open>The dictionary entry of the block builder for position \<open>i\<close>.\<close>

definition block_at :: "string list \<Rightarrow> nat list \<Rightarrow> nat \<Rightarrow> string \<times> block" where
  "block_at lines leaders i = (block_name i, make_block lines leaders i (leaders ! i))"

text \<open>
  The edges of the block at position \<open>i\<close> when no read fails: \<open>block_edges\<close> with
  every block's code non-empty.
\<close>

definition edges_at :: "(string \<times> block) list \<Rightarrow> nat \<Rightarrow> string list" where
  "edges_at blocks i =
     (let block_ids = map fst blocks; n = length block_ids; b = snd (blocks ! i) in
      if match_kw_paren [''if'', ''while'', ''for''] (last (code b)) then
        (if i + 1 < n then [block_ids ! (i + 1)] else []) @
        (case find (\<lambda>(k, b'). contains ''else'' (hd (code b'))) (drop (i + 1) blocks) of
           Some (k, b') \<Rightarrow> [k]
         | None \<Rightarrow> if i + 2 < n then [block_ids ! (i + 2)] else [])
      else if contains ''else'' (hd (code b)) \<or> contains ''case'' (hd (code b)) then
        (if i + 2 < n then [block_ids ! (i + 2)]
         else if i + 1 < n then [block_ids ! (i + 1)] else [])
      else if \<not> list_ex (\<lambda>kw. contains kw (last (code b))) [''return'', ''break'', ''goto'']
              \<and> i + 1 < n
        then [block_ids ! (i + 1)]
        else [])"

text \<open>The graph dictionary after the first \<open>m\<close> iterations of the loop of \<open>build_cfg\<close>.\<close>

definition cfg_after :: "(string \<times> block) list \<Rightarrow> nat \<Rightarrow> (string \<times> string list) list" where
  "cfg_after blocks m =
     map (\<lambda>j. (fst (blocks ! j), if j < m then edges_at blocks j else [])) [0..<length blocks]"

text \<open>The ids of the definitions of variable \<open>v\<close> in a definitions dictionary.\<close>

definition var_ids :: "definitions \<Rightarrow> string \<Rightarrow> string set" where
  "var_ids defs v = {d. \<exists>info. (d, info) \<in> set defs \<and> var info = v}"

text \<open>
  What the state of the definition finder satisfies after every line: the ids are
  \<open>d1 .. d(cnt-1)\<close> without repetition, every owning block is a key in \<open>K\<close>, and the
  variable index holds exactly the ids of each variable.
\<close>

definition defs_ok :: "string set \<Rightarrow> definitions \<times> nat \<times> var_index \<Rightarrow> bool" where
  "defs_ok K = (\<lambda>(defs, cnt, v2d).
     1 \<le> cnt \<and> fst ` set defs = def_name ` {1..<cnt} \<and> distinct (map fst defs)
     \<and> (\<forall>(d, info) \<in> set defs. block info \<in> K)
     \<and> (\<forall>v. map_of v2d v = (if var_ids defs v = {} then None else Some (var_ids defs v))))"

text \<open>
  What the gen and kill dictionaries satisfy after the definitions \<open>p\<close> have been
  processed: the keys are the block ids, \<open>gen[B]\<close> holds only definitions of \<open>p\<close> owned
  by \<open>B\<close>, and every element of \<open>kill[B]\<close> is another definition of the variable of
  some definition of \<open>p\<close> owned by \<open>B\<close>.
\<close>

definition gk_ok :: "string list \<Rightarrow> var_index \<Rightarrow> definitions \<Rightarrow> set_dict \<times> set_dict \<Rightarrow> bool" where
  "gk_ok bs v2d p = (\<lambda>(gen, kill).
     map fst gen = bs \<and> map fst kill = bs
     \<and> (\<forall>B g x. map_of gen B = Some g \<longrightarrow> x \<in> g \<longrightarrow> (\<exists>info. (x, info) \<in> set p \<and> block info = B))
     \<and> (\<forall>B k x. map_of kill B = Some k \<longrightarrow> x \<in> k \<longrightarrow>
           (\<exists>d info ds. (d, info) \<in> set p \<and> block info = B \<and> x \<noteq> d
                \<and> map_of v2d (var info) = Some ds \<and> x \<in> ds)))"

text \<open>
  The transfer function of the solver on dictionaries: \<open>in_of\<close> is the union of the
  \<open>out\<close> sets of the predecessors of \<open>b\<close>, \<open>out_of\<close> is \<open>gen[b] \<union> (in[b] - kill[b])\<close>.
  \<open>gen_universe\<close> is the set of all generated definition ids, \<open>rd_inv\<close> says that no
  \<open>out\<close> set exceeds its own recomputation or the universe, and \<open>rd_measure\<close> counts the
  ids still missing from the \<open>out\<close> sets.
\<close>

definition in_of :: "(string \<times> string list) list \<Rightarrow> set_dict \<Rightarrow> string \<Rightarrow> string set" where
  "in_of predecessors outs b =
     \<Union> {s. \<exists>ps p. map_of predecessors b = Some ps \<and> p \<in> set ps \<and> map_of outs p = Some s}"

definition out_of :: "(string \<times> string list) list \<Rightarrow> set_dict \<Rightarrow> set_dict \<Rightarrow> set_dict \<Rightarrow> string
    \<Rightarrow> string set" where
  "out_of predecessors gen kill outs b =
     (case map_of gen b of None \<Rightarrow> {} | Some g \<Rightarrow> g)
     \<union> (in_of predecessors outs b - (case map_of kill b of None \<Rightarrow> {} | Some k \<Rightarrow> k))"

definition gen_universe :: "set_dict \<Rightarrow> string set" where
  "gen_universe gen = \<Union> (snd ` set gen)"

definition rd_inv :: "(string \<times> string list) list \<Rightarrow> set_dict \<Rightarrow> set_dict \<Rightarrow> set_dict \<Rightarrow> bool" where
  "rd_inv predecessors gen kill outs \<longleftrightarrow>
     (\<forall>b s. map_of outs b = Some s \<longrightarrow>
        s \<subseteq> out_of predecessors gen kill outs b \<and> s \<subseteq> gen_universe gen)"

definition rd_measure :: "set_dict \<Rightarrow> set_dict \<Rightarrow> nat" where
  "rd_measure gen outs = sum_list (map (\<lambda>(b, s). card (gen_universe gen - s)) outs)"

text \<open>
  The keys the solver reads exist: every block id is a key of \<open>out\<close>, \<open>gen\<close> and
  \<open>kill\<close> and has a predecessor list whose members are keys of \<open>out\<close>.
\<close>

definition rd_wf :: "string list \<Rightarrow> (string \<times> string list) list \<Rightarrow> set_dict \<Rightarrow> set_dict \<Rightarrow> set_dict \<Rightarrow> bool" where
  "rd_wf bids predecessors gen kill outs \<longleftrightarrow>
     set bids \<subseteq> fst ` set outs \<and> set bids \<subseteq> fst ` set gen \<and> set bids \<subseteq> fst ` set kill
     \<and> (\<forall>b \<in> set bids. \<exists>ps. map_of predecessors b = Some ps \<and> set ps \<subseteq> fst ` set outs)"

section \<open>Properties\<close>

subsection \<open>Dictionaries and rendered numbers\<close>

lemma dict_get_map_of:
  "dict_get d k = (case map_of d k of None \<Rightarrow> Inl KeyError | Some v \<Rightarrow> Inr v)"
  by (induction d) auto

lemma update_fresh: "k \<notin> fst ` set al \<Longrightarrow> AList.update k v al = al @ [(k, v)]"
  by (induction al) auto

lemma of_char_digit_char: "d < 10 \<Longrightarrow> of_char (digit_char d) = 48 + d"
  by (simp add: digit_char_def)

lemma digit_char_inj: "a < 10 \<Longrightarrow> b < 10 \<Longrightarrow> digit_char a = digit_char b \<Longrightarrow> a = b"
  by (metis of_char_digit_char add_left_cancel)

lemma str_nat_nonempty: "str_nat n \<noteq> []"
  by (subst str_nat.simps) simp

lemma str_nat_length_ge2: "10 \<le> n \<Longrightarrow> 2 \<le> length (str_nat n)"
  using str_nat_nonempty [of "n div 10"]
  by (subst str_nat.simps) (cases "str_nat (n div 10)", auto)

lemma str_nat_inj: "str_nat m = str_nat n \<Longrightarrow> m = n"
proof (induction m arbitrary: n rule: str_nat.induct)
  case (1 m)
  show ?case
  proof (cases "m < 10")
    case True
    then have lm: "str_nat m = [digit_char m]" by (subst str_nat.simps) simp
    show ?thesis
    proof (cases "n < 10")
      case True
      then have "str_nat n = [digit_char n]" by (subst str_nat.simps) simp
      with lm "1.prems" \<open>m < 10\<close> True show ?thesis by (auto dest: digit_char_inj)
    next
      case False
      then have "2 \<le> length (str_nat n)" by (simp add: str_nat_length_ge2)
      with lm "1.prems" show ?thesis by simp
    qed
  next
    case False
    then have lm: "str_nat m = str_nat (m div 10) @ [digit_char (m mod 10)]"
      by (subst str_nat.simps) simp
    show ?thesis
    proof (cases "n < 10")
      case True
      then have "str_nat n = [digit_char n]" by (subst str_nat.simps) simp
      moreover from False have "2 \<le> length (str_nat m)" by (simp add: str_nat_length_ge2)
      ultimately show ?thesis using "1.prems" by simp
    next
      case nf: False
      then have ln: "str_nat n = str_nat (n div 10) @ [digit_char (n mod 10)]"
        by (subst str_nat.simps) simp
      from lm ln "1.prems" have a: "str_nat (m div 10) = str_nat (n div 10)"
        and b: "digit_char (m mod 10) = digit_char (n mod 10)" by auto
      from "1.IH" [OF False a] have "m div 10 = n div 10" .
      moreover from b have "m mod 10 = n mod 10" by (intro digit_char_inj) simp_all
      ultimately show ?thesis by (metis div_mult_mod_eq)
    qed
  qed
qed

lemma block_name_inj: "block_name i = block_name j \<Longrightarrow> i = j"
  by (simp add: block_name_def str_nat_inj)



subsection \<open>Concrete scenarios\<close>

text \<open>
  C10. There is an input on which a line starting with an identifier followed by the
  comparison operator \<open>==\<close> is recorded as a definition of that identifier: for the
  one-line program \<open>x == y;\<close> the assignment pattern matches at the first \<open>=\<close>, and the
  definition finder records \<open>d1\<close> as a definition of \<open>x\<close> in block \<open>B0\<close>.
\<close>

theorem find_definitions_equality_comparison:
  "match_definition ''x == y;'' = Some ''x'' \<and>
   find_definitions (create_basic_blocks [''x == y;''] (find_leaders [''x == y;''])) =
     ([(''d1'', \<lparr>var = ''x'', block = ''B0'', line = ''x == y;''\<rparr>)], [(''x'', {''d1''})])"
  by code_simp

text \<open>
  C8, as stated, fails: for the five-line if/else input the leader detector does not
  produce four leaders. The closing brace is the last line, so no line follows it, and
  index 5 is not a leader.
\<close>

theorem if_else_leaders_counterexample:
  "find_leaders [''if (x > 0)'', ''y = 1;'', ''else {'', ''y = 2;'', ''}''] \<noteq> [0, 1, 2, 5] \<and>
   length (find_leaders [''if (x > 0)'', ''y = 1;'', ''else {'', ''y = 2;'', ''}'']) \<noteq> 4"
  by code_simp

text \<open>
  C8, amended. For the input \<open>if (x > 0)\<close>, \<open>y = 1;\<close>, \<open>else {\<close>, \<open>y = 2;\<close>, \<open>}\<close> the
  leaders are exactly the \<open>if\<close> line (0), the line after it (1) and the \<open>else\<close> line
  (2); the resulting graph gives the \<open>if\<close> block \<open>B0\<close> exactly two outgoing edges, to
  the body block \<open>B1\<close> and to the else block \<open>B2\<close>.
\<close>

theorem if_else_scenario:
  "find_leaders [''if (x > 0)'', ''y = 1;'', ''else {'', ''y = 2;'', ''}''] = [0, 1, 2] \<and>
   build_cfg (create_basic_blocks [''if (x > 0)'', ''y = 1;'', ''else {'', ''y = 2;'', ''}'']
      (find_leaders [''if (x > 0)'', ''y = 1;'', ''else {'', ''y = 2;'', ''}''])) =
     Inr [(''B0'', [''B1'', ''B2'']), (''B1'', [''B2'']), (''B2'', [])]"
  by code_simp

text \<open>
  C2. On the empty input the leader list is \<open>[0]\<close> and the block builder emits the one
  block \<open>B0\<close> with empty code, but the graph builder does not process it: reading the
  last line of the empty block raises \<open>IndexError\<close>.
\<close>

theorem empty_input_build_cfg_raises:
  "find_leaders [] = [0] \<and>
   create_basic_blocks [] (find_leaders []) =
     [(''B0'', \<lparr>code = [], start_line = 0, end_line = - 1\<rparr>)] \<and>
   build_cfg (create_basic_blocks [] (find_leaders [])) = Inl IndexError"
  by code_simp

subsection \<open>Unresolved goto labels\<close>

lemma goto_fold_eq:
  "fold (\<lambda>(j, target_line) ls. if starts_with (label @ '':'') target_line then insert j ls else ls)
        (enumerate k ls) S
   = S \<union> {j. k \<le> j \<and> j < k + length ls \<and> starts_with (label @ '':'') (ls ! (j - k))}"
proof (induction ls arbitrary: k S)
  case Nil
  show ?case by auto
next
  case (Cons l ls)
  have "{j. k \<le> j \<and> j < k + length (l # ls) \<and> starts_with (label @ '':'') ((l # ls) ! (j - k))}
      = (if starts_with (label @ '':'') l then {k} else {})
        \<union> {j. Suc k \<le> j \<and> j < Suc k + length ls \<and> starts_with (label @ '':'') (ls ! (j - Suc k))}"
    (is "?L = ?R")
  proof (rule set_eqI)
    fix j
    show "j \<in> ?L \<longleftrightarrow> j \<in> ?R"
    proof (cases "j = k")
      case True
      then show ?thesis by simp
    next
      case False
      have "k \<le> j \<and> j \<noteq> k \<longleftrightarrow> Suc k \<le> j" by auto
      moreover have "(l # ls) ! (j - k) = ls ! (j - Suc k)" if "Suc k \<le> j"
        using that by (simp add: nth_Cons' )
      ultimately show ?thesis using False by auto
    qed
  qed
  then show ?case by (auto simp: Cons.IH)
qed

lemma goto_targets_eq:
  "goto_targets lines label S = S \<union> {j. j < length lines \<and> starts_with (label @ '':'') (lines ! j)}"
  by (simp add: goto_targets_def goto_fold_eq)

lemma fold_enumerate_union:
  assumes "\<And>i S. i < length xs \<Longrightarrow> f (i, xs ! i) S = S \<union> g i"
  shows "fold f (enumerate 0 xs) S = S \<union> (\<Union>i \<in> {..<length xs}. g i)"
proof -
  have "m \<le> length xs \<Longrightarrow> fold f (take m (enumerate 0 xs)) S = S \<union> (\<Union>i \<in> {..<m}. g i)" for m
  proof (induction m)
    case 0
    show ?case by simp
  next
    case (Suc m)
    then have m: "m < length xs" by simp
    then have "take (Suc m) (enumerate 0 xs) = take m (enumerate 0 xs) @ [(m, xs ! m)]"
      by (simp add: take_Suc_conv_app_nth nth_enumerate_eq)
    with Suc.IH m assms [OF m] show ?case by (auto simp: lessThan_Suc)
  qed
  from this [of "length xs"] show ?thesis by simp
qed


lemma leader_step_eq:
  "leader_step lines (i, l) S = S
     \<union> (if match_kw_paren [''if'', ''while'', ''for'', ''switch''] l
            \<or> match_kw [''else'', ''case'', ''default''] l then {i} else {})
     \<union> (case search_goto l of
          None \<Rightarrow> {}
        | Some label \<Rightarrow> {j. j < length lines \<and> starts_with (label @ '':'') (lines ! j)})
     \<union> (if (match_kw_boundary [''if'', ''while'', ''for'', ''switch'', ''goto'', ''return'', ''break''] l
            \<or> (starts_with ''}'' l \<and> 0 < i))
           \<and> i + 1 < length lines \<and> \<not> starts_with ''}'' (lines ! (i + 1))
         then {i + 1} else {})"
  unfolding leader_step_def prod.case Let_def goto_targets_eq
  by (cases "search_goto l") auto

lemma else_step_eq:
  "else_step lines (i, l) S = S
     \<union> (if strip l = ''} else {'' \<and> i + 1 < length lines then {i + 1} else {})"
  by (simp add: else_step_def)

lemma find_leaders_set:
  "find_leaders lines = sorted_list_of_set
     ({0}
      \<union> (\<Union>i \<in> {..<length lines}.
           (if match_kw_paren [''if'', ''while'', ''for'', ''switch''] (lines ! i)
               \<or> match_kw [''else'', ''case'', ''default''] (lines ! i) then {i} else {})
         \<union> (case search_goto (lines ! i) of
              None \<Rightarrow> {}
            | Some label \<Rightarrow> {j. j < length lines \<and> starts_with (label @ '':'') (lines ! j)})
         \<union> (if (match_kw_boundary [''if'', ''while'', ''for'', ''switch'', ''goto'', ''return'', ''break'']
                   (lines ! i)
                \<or> (starts_with ''}'' (lines ! i) \<and> 0 < i))
               \<and> i + 1 < length lines \<and> \<not> starts_with ''}'' (lines ! (i + 1))
             then {i + 1} else {}))
      \<union> (\<Union>i \<in> {..<length lines}.
           if strip (lines ! i) = ''} else {'' \<and> i + 1 < length lines then {i + 1} else {}))"
  unfolding find_leaders_def
  by (subst fold_enumerate_union [where f = "leader_step lines", OF leader_step_eq [where lines = lines, unfolded Un_assoc]])
     (subst fold_enumerate_union [where f = "else_step lines", OF else_step_eq], simp add: Un_assoc)


text \<open>
  C9. When line \<open>i\<close> of the input holds a \<open>goto label;\<close> and no line of the input
  begins with \<open>label:\<close>, the leader detector returns (it has no failing branch) and
  the goto of line \<open>i\<close> marks no line: the leaders are exactly line 0, the lines that
  open a construct or branch target, the lines after a jump or closing brace, the lines
  after \<open>} else {\<close>, and the targets of the gotos of the other lines, sorted.
\<close>

theorem unresolved_goto_adds_no_leader:
  assumes i: "i < length lines"
    and goto: "search_goto (lines ! i) = Some label"
    and unresolved: "list_all (\<lambda>t. \<not> starts_with (label @ '':'') t) lines"
  shows "find_leaders lines = sorted_list_of_set
     ({0}
      \<union> {j. j < length lines
             \<and> (match_kw_paren [''if'', ''while'', ''for'', ''switch''] (lines ! j)
                \<or> match_kw [''else'', ''case'', ''default''] (lines ! j))}
      \<union> {j + 1 | j. j + 1 < length lines
             \<and> (match_kw_boundary [''if'', ''while'', ''for'', ''switch'', ''goto'', ''return'', ''break'']
                   (lines ! j)
                \<or> (starts_with ''}'' (lines ! j) \<and> 0 < j))
             \<and> \<not> starts_with ''}'' (lines ! (j + 1))}
      \<union> {j + 1 | j. j + 1 < length lines \<and> strip (lines ! j) = ''} else {''}
      \<union> {j. j < length lines
             \<and> (\<exists>k < length lines. k \<noteq> i
                  \<and> (\<exists>label'. search_goto (lines ! k) = Some label'
                              \<and> starts_with (label' @ '':'') (lines ! j)))})"
proof -
  let ?n = "length lines"
  let ?open = "\<lambda>j. match_kw_paren [''if'', ''while'', ''for'', ''switch''] (lines ! j)
                \<or> match_kw [''else'', ''case'', ''default''] (lines ! j)"
  let ?jump = "\<lambda>j. (match_kw_boundary [''if'', ''while'', ''for'', ''switch'', ''goto'', ''return'', ''break'']
                   (lines ! j)
                \<or> (starts_with ''}'' (lines ! j) \<and> 0 < j))
               \<and> j + 1 < ?n \<and> \<not> starts_with ''}'' (lines ! (j + 1))"
  let ?tgt = "\<lambda>k. case search_goto (lines ! k) of
              None \<Rightarrow> {}
            | Some label \<Rightarrow> {j. j < ?n \<and> starts_with (label @ '':'') (lines ! j)}"
  have none: "?tgt i = {}"
    using goto unresolved by (auto simp: list_all_length)
  have a: "(\<Union>k \<in> {..<?n}. if ?open k then {k} else {}) = {j. j < ?n \<and> ?open j}"
    by (auto split: if_splits)
  have b: "(\<Union>k \<in> {..<?n}. if ?jump k then {k + 1} else {})
      = {j + 1 | j. j + 1 < ?n
             \<and> (match_kw_boundary [''if'', ''while'', ''for'', ''switch'', ''goto'', ''return'', ''break'']
                   (lines ! j)
                \<or> (starts_with ''}'' (lines ! j) \<and> 0 < j))
             \<and> \<not> starts_with ''}'' (lines ! (j + 1))}"
    by (auto split: if_splits)
  have c: "(\<Union>k \<in> {..<?n}. if strip (lines ! k) = ''} else {'' \<and> k + 1 < ?n then {k + 1} else {})
      = {j + 1 | j. j + 1 < ?n \<and> strip (lines ! j) = ''} else {''}"
    by (auto split: if_splits)
  have d: "(\<Union>k \<in> {..<?n}. ?tgt k)
      = {j. j < ?n \<and> (\<exists>k < ?n. k \<noteq> i
                  \<and> (\<exists>label'. search_goto (lines ! k) = Some label'
                              \<and> starts_with (label' @ '':'') (lines ! j)))}"
    (is "?L = ?R")
  proof (rule set_eqI)
    fix j
    show "j \<in> ?L \<longleftrightarrow> j \<in> ?R"
    proof
      assume "j \<in> ?L"
      then obtain k where k: "k < ?n" "j \<in> ?tgt k" by auto
      with none have "k \<noteq> i" by auto
      with k show "j \<in> ?R" by (auto split: option.splits)
    next
      assume "j \<in> ?R"
      then obtain k lb where "j < ?n" "k < ?n" "search_goto (lines ! k) = Some lb"
        "starts_with (lb @ '':'') (lines ! j)" by auto
      then have "j \<in> ?tgt k" by simp
      with \<open>k < ?n\<close> show "j \<in> ?L" by blast
    qed
  qed
  have "(\<Union>k \<in> {..<?n}. (if ?open k then {k} else {}) \<union> ?tgt k \<union> (if ?jump k then {k + 1} else {}))
      = (\<Union>k \<in> {..<?n}. if ?open k then {k} else {}) \<union> (\<Union>k \<in> {..<?n}. ?tgt k)
        \<union> (\<Union>k \<in> {..<?n}. if ?jump k then {k + 1} else {})"
    by blast
  then show ?thesis
    unfolding find_leaders_set a b c d by (simp add: Un_ac)
qed


theorem unresolved_goto_adds_no_leader_witness:
  "search_goto ([''goto done;'', ''x = 1;''] ! 0) = Some ''done''
   \<and> list_all (\<lambda>t. \<not> starts_with (''done'' @ '':'') t) [''goto done;'', ''x = 1;'']
   \<and> find_leaders [''goto done;'', ''x = 1;''] = sorted_list_of_set
     ({0}
      \<union> {j. j < length [''goto done;'', ''x = 1;'']
             \<and> (match_kw_paren [''if'', ''while'', ''for'', ''switch''] ([''goto done;'', ''x = 1;''] ! j)
                \<or> match_kw [''else'', ''case'', ''default''] ([''goto done;'', ''x = 1;''] ! j))}
      \<union> {j + 1 | j. j + 1 < length [''goto done;'', ''x = 1;'']
             \<and> (match_kw_boundary [''if'', ''while'', ''for'', ''switch'', ''goto'', ''return'', ''break'']
                   ([''goto done;'', ''x = 1;''] ! j)
                \<or> (starts_with ''}'' ([''goto done;'', ''x = 1;''] ! j) \<and> 0 < j))
             \<and> \<not> starts_with ''}'' ([''goto done;'', ''x = 1;''] ! (j + 1))}
      \<union> {j + 1 | j. j + 1 < length [''goto done;'', ''x = 1;''] \<and> strip ([''goto done;'', ''x = 1;''] ! j) = ''} else {''}
      \<union> {j. j < length [''goto done;'', ''x = 1;'']
             \<and> (\<exists>k < length [''goto done;'', ''x = 1;'']. k \<noteq> 0
                  \<and> (\<exists>label'. search_goto ([''goto done;'', ''x = 1;''] ! k) = Some label'
                              \<and> starts_with (label' @ '':'') ([''goto done;'', ''x = 1;''] ! j)))})
   \<and> find_leaders [''goto done;'', ''x = 1;''] = [0, 1]"
proof -
  have i: "0 < length [''goto done;'', ''x = 1;'']" by simp
  have a: "search_goto ([''goto done;'', ''x = 1;''] ! 0) = Some ''done''" by code_simp
  have b: "list_all (\<lambda>t. \<not> starts_with (''done'' @ '':'') t) [''goto done;'', ''x = 1;'']" by code_simp
  have c: "find_leaders [''goto done;'', ''x = 1;''] = [0, 1]" by code_simp
  from unresolved_goto_adds_no_leader [OF i a b] a b c show ?thesis by blast
qed

subsection \<open>Leaders and the block partition\<close>

lemma goto_targets_bound:
  "S \<subseteq> {..<length lines} \<Longrightarrow> goto_targets lines label S \<subseteq> {..<length lines}"
  unfolding goto_targets_def
  by (rule fold_invariant [where Q = "\<lambda>p. fst p < length lines"])
     (auto simp: in_set_enumerate_eq split: if_splits)

lemma goto_targets_mono: "S \<subseteq> goto_targets lines label S"
proof -
  let ?f = "\<lambda>(j, target_line) ls. if starts_with (label @ '':'') target_line then insert j ls else ls"
  have "S \<subseteq> fold ?f xs S" for xs :: "(nat \<times> string) list" and S
  proof (induction xs arbitrary: S)
    case Nil show ?case by simp
  next
    case (Cons x xs)
    have "S \<subseteq> ?f x S" by (cases x) auto
    also have "\<dots> \<subseteq> fold ?f xs (?f x S)" by (rule Cons.IH)
    finally show ?case by simp
  qed
  then show ?thesis by (simp add: goto_targets_def)
qed

lemma goto_targets_finite: "finite S \<Longrightarrow> finite (goto_targets lines label S)"
  unfolding goto_targets_def
  by (rule fold_invariant [where Q = "\<lambda>p. True"]) auto

lemma leader_step_ok:
  assumes "leaders_ok lines S" "i < length lines"
  shows "leaders_ok lines (leader_step lines (i, l) S)"
proof -
  let ?l1 = "if match_kw_paren [''if'', ''while'', ''for'', ''switch''] l
                  \<or> match_kw [''else'', ''case'', ''default''] l
               then insert i S else S"
  have l1: "leaders_ok lines ?l1" using assms by (auto simp: leaders_ok_def)
  let ?l2 = "case search_goto l of None \<Rightarrow> ?l1 | Some label \<Rightarrow> goto_targets lines label ?l1"
  have l2: "leaders_ok lines ?l2"
  proof (cases "search_goto l")
    case None then show ?thesis using l1 by simp
  next
    case (Some label)
    from l1 have "0 \<in> goto_targets lines label ?l1"
      using goto_targets_mono [of ?l1 lines label] unfolding leaders_ok_def by blast
    moreover from l1 have "finite (goto_targets lines label ?l1)"
      unfolding leaders_ok_def by (intro goto_targets_finite) simp
    moreover from l1 have "goto_targets lines label ?l1 \<subseteq> {..<length lines}"
      unfolding leaders_ok_def by (intro goto_targets_bound) simp
    ultimately show ?thesis using Some by (simp add: leaders_ok_def)
  qed
  have "leader_step lines (i, l) S =
    (if (match_kw_boundary [''if'', ''while'', ''for'', ''switch'', ''goto'', ''return'', ''break''] l
            \<or> (starts_with ''}'' l \<and> 0 < i))
           \<and> i + 1 < length lines \<and> \<not> starts_with ''}'' (lines ! (i + 1))
        then insert (i + 1) ?l2 else ?l2)"
    by (simp only: leader_step_def prod.case Let_def)
  with l2 show ?thesis by (auto simp: leaders_ok_def)
qed

lemma else_step_ok:
  assumes "leaders_ok lines S"
  shows "leaders_ok lines (else_step lines (i, l) S)"
  using assms by (auto simp: leaders_ok_def else_step_def)

lemma leaders_set_ok:
  assumes "lines \<noteq> []"
  shows "leaders_ok lines (fold (else_step lines) (enumerate 0 lines)
          (fold (leader_step lines) (enumerate 0 lines) {0}))"
proof -
  have init: "leaders_ok lines {0}" using assms by (simp add: leaders_ok_def)
  have a: "leaders_ok lines (fold (leader_step lines) (enumerate 0 lines) {0})"
    by (rule fold_invariant [where Q = "\<lambda>p. fst p < length lines"])
       (auto simp: in_set_enumerate_eq init intro: leader_step_ok)
  show ?thesis
    by (rule fold_invariant [where Q = "\<lambda>p. True"])
       (auto simp: a intro: else_step_ok)
qed

lemma find_leaders_props:
  assumes "lines \<noteq> []"
  shows "0 \<in> set (find_leaders lines)" "sorted (find_leaders lines)" "distinct (find_leaders lines)"
    "\<forall>x \<in> set (find_leaders lines). x < length lines"
  using leaders_set_ok [OF assms] by (auto simp: find_leaders_def leaders_ok_def)


lemma fst_block_at [simp]: "fst (block_at lines leaders i) = block_name i"
  by (simp add: block_at_def)

lemma create_basic_blocks_take:
  "m \<le> length leaders \<Longrightarrow>
   fold (\<lambda>(i, start_index) blocks.
           AList.update (block_name i) (make_block lines leaders i start_index) blocks)
        (take m (enumerate 0 leaders)) [] = map (block_at lines leaders) [0..<m]"
proof (induction m)
  case 0
  show ?case by simp
next
  case (Suc m)
  then have m: "m < length leaders" by simp
  have fresh: "block_name m \<notin> fst ` set (map (block_at lines leaders) [0..<m])"
    by (auto dest: block_name_inj)
  have nth: "enumerate 0 leaders ! m = (m, leaders ! m)"
    using m by (simp add: nth_enumerate_eq)
  from m have "take (Suc m) (enumerate 0 leaders) = take m (enumerate 0 leaders) @ [(m, leaders ! m)]"
    by (simp add: take_Suc_conv_app_nth nth)
  with Suc.IH m fresh show ?case
    by (simp add: update_fresh block_at_def)
qed

lemma create_basic_blocks_eq:
  "create_basic_blocks lines leaders = map (block_at lines leaders) [0..<length leaders]"
  using create_basic_blocks_take [of "length leaders" leaders lines]
  by (simp add: create_basic_blocks_def)

lemma sorted_distinct_nth_less:
  "sorted xs \<Longrightarrow> distinct xs \<Longrightarrow> i < j \<Longrightarrow> j < length xs \<Longrightarrow> xs ! i < (xs ! j :: nat)"
  by (metis le_neq_implies_less less_imp_le_nat nth_eq_iff_index_eq order_less_trans sorted_nth_mono nat_neq_iff)

lemma slices_concat:
  assumes "sorted ls" "ls \<noteq> []" "ls ! 0 = 0" "\<forall>x \<in> set ls. x \<le> length xs"
  shows "m < length ls \<Longrightarrow>
     concat (map (\<lambda>i. slice xs (ls ! i) (if i + 1 < length ls then ls ! (i + 1) else length xs)) [0..<m])
       = take (ls ! m) xs"
proof (induction m)
  case 0
  show ?case using assms by simp
next
  case (Suc m)
  then have le: "ls ! m \<le> ls ! Suc m" using assms(1) by (simp add: sorted_nth_mono)
  have "take (ls ! Suc m) xs = take (ls ! m) xs @ take (ls ! Suc m - ls ! m) (drop (ls ! m) xs)"
    using le take_add [of "ls ! m" "ls ! Suc m - ls ! m" xs] by simp
  with Suc show ?case by (simp add: slice_def)
qed

lemma slices_concat_all:
  assumes "sorted ls" "ls \<noteq> []" "ls ! 0 = 0" "\<forall>x \<in> set ls. x \<le> length xs"
  shows "concat (map (\<lambda>i. slice xs (ls ! i) (if i + 1 < length ls then ls ! (i + 1) else length xs))
           [0..<length ls]) = xs"
proof -
  obtain m where m: "length ls = Suc m" using assms(2) by (cases ls) auto
  have le: "ls ! m \<le> length xs" using assms(4) m by simp
  have "xs = take (ls ! m) xs @ take (length xs - ls ! m) (drop (ls ! m) xs)"
    using le take_add [of "ls ! m" "length xs - ls ! m" xs] by simp
  with slices_concat [OF assms, of m] m show ?thesis by (simp add: slice_def)
qed


text \<open>
  C3. For every non-empty line sequence the leader list contains 0 (and is sorted without
  repetition), and the blocks built from it partition the lines exactly: there is one
  block per leader, the blocks' code concatenated in order gives back the lines, the first
  block starts at line 0 and the last ends at the last line, every block is non-empty and
  holds exactly the lines from its \<open>start_line\<close> to its \<open>end_line\<close>, each block starts
  right after the one before it ends, start lines increase strictly with the position,
  and the block at position \<open>k\<close> has the id \<open>B<k>\<close>.
\<close>

theorem blocks_partition_lines:
  fixes lines :: "string list"
  defines "leaders \<equiv> find_leaders lines"
  defines "blocks \<equiv> create_basic_blocks lines leaders"
  assumes nonempty: "lines \<noteq> []"
  shows "0 \<in> set leaders \<and> sorted leaders \<and> distinct leaders
    \<and> length blocks = length leaders
    \<and> concat (map (\<lambda>(bid, b). code b) blocks) = lines
    \<and> start_line (snd (blocks ! 0)) = 0
    \<and> end_line (snd (last blocks)) = int (length lines) - 1
    \<and> (\<forall>k < length blocks.
          fst (blocks ! k) = block_name k
        \<and> start_line (snd (blocks ! k)) = int (leaders ! k)
        \<and> start_line (snd (blocks ! k)) \<le> end_line (snd (blocks ! k))
        \<and> code (snd (blocks ! k)) =
            slice lines (nat (start_line (snd (blocks ! k)))) (nat (end_line (snd (blocks ! k)) + 1))
        \<and> code (snd (blocks ! k)) \<noteq> []
        \<and> (\<forall>j < k. start_line (snd (blocks ! j)) < start_line (snd (blocks ! k)))
        \<and> (k + 1 < length blocks \<longrightarrow>
             start_line (snd (blocks ! (k + 1))) = end_line (snd (blocks ! k)) + 1))"
proof -
  note lp = find_leaders_props [OF nonempty, folded leaders_def]
  have sorted: "sorted leaders" and dist: "distinct leaders" and zero: "0 \<in> set leaders"
    and bound: "\<forall>x \<in> set leaders. x < length lines" using lp by auto
  have ne: "leaders \<noteq> []" using zero by auto
  have hd0: "leaders ! 0 = 0"
  proof -
    from zero obtain i where i: "i < length leaders" "leaders ! i = 0" by (auto simp: in_set_conv_nth)
    have "leaders ! 0 \<le> leaders ! i" by (rule sorted_nth_mono [OF sorted _ i(1)]) simp
    with i show ?thesis by simp
  qed
  have blocks: "blocks = map (block_at lines leaders) [0..<length leaders]"
    by (simp add: blocks_def create_basic_blocks_eq)
  have len: "length blocks = length leaders" by (simp add: blocks)
  have nth: "blocks ! k = block_at lines leaders k" if "k < length leaders" for k
    using that by (simp add: blocks)
  have endk: "leaders ! k < (if k + 1 < length leaders then leaders ! (k + 1) else length lines)"
    if "k < length leaders" for k
    using that bound sorted_distinct_nth_less [OF sorted dist, of k "k + 1"] by auto
  have cat: "concat (map (\<lambda>(bid, b). code b) blocks) = lines"
  proof -
    have "map (\<lambda>(bid, b). code b) blocks =
      map (\<lambda>i. slice lines (leaders ! i) (if i + 1 < length leaders then leaders ! (i + 1) else length lines))
        [0..<length leaders]"
      by (simp add: blocks block_at_def make_block_def Let_def)
    moreover have "\<forall>x \<in> set leaders. x \<le> length lines" using bound by auto
    ultimately show ?thesis using slices_concat_all [OF sorted ne hd0] by simp
  qed
  have first: "start_line (snd (blocks ! 0)) = 0"
    using ne hd0 by (simp add: nth block_at_def make_block_def Let_def)
  have lastb: "end_line (snd (last blocks)) = int (length lines) - 1"
  proof -
    have "blocks \<noteq> []" using ne len by auto
    then have "last blocks = blocks ! (length leaders - 1)" by (simp add: last_conv_nth len)
    also have "\<dots> = block_at lines leaders (length leaders - 1)" using ne by (simp add: nth)
    finally show ?thesis using ne by (simp add: block_at_def make_block_def Let_def)
  qed
  have each: "fst (blocks ! k) = block_name k
        \<and> start_line (snd (blocks ! k)) = int (leaders ! k)
        \<and> start_line (snd (blocks ! k)) \<le> end_line (snd (blocks ! k))
        \<and> code (snd (blocks ! k)) =
            slice lines (nat (start_line (snd (blocks ! k)))) (nat (end_line (snd (blocks ! k)) + 1))
        \<and> code (snd (blocks ! k)) \<noteq> []
        \<and> (\<forall>j < k. start_line (snd (blocks ! j)) < start_line (snd (blocks ! k)))
        \<and> (k + 1 < length blocks \<longrightarrow>
             start_line (snd (blocks ! (k + 1))) = end_line (snd (blocks ! k)) + 1)"
    if k: "k < length blocks" for k
  proof -
    from k have kl: "k < length leaders" by (simp add: len)
    let ?e = "if k + 1 < length leaders then leaders ! (k + 1) else length lines"
    have lt: "leaders ! k < ?e" by (rule endk [OF kl])
    have le: "?e \<le> length lines" using bound by (auto simp: less_imp_le)
    have b: "snd (blocks ! k) = \<lparr>code = slice lines (leaders ! k) ?e, start_line = int (leaders ! k),
           end_line = int ?e - 1\<rparr>"
      by (simp add: nth [OF kl] block_at_def make_block_def Let_def)
    have c1: "fst (blocks ! k) = block_name k" by (simp add: nth [OF kl])
    have c2: "start_line (snd (blocks ! k)) = int (leaders ! k)" by (simp add: b)
    have c3: "start_line (snd (blocks ! k)) \<le> end_line (snd (blocks ! k))"
      using lt by (simp add: b)
    have c4: "code (snd (blocks ! k)) =
            slice lines (nat (start_line (snd (blocks ! k)))) (nat (end_line (snd (blocks ! k)) + 1))"
      by (simp add: b)
    have c5: "code (snd (blocks ! k)) \<noteq> []"
      using lt le by (simp add: b slice_def)
    have c6: "\<forall>j < k. start_line (snd (blocks ! j)) < start_line (snd (blocks ! k))"
    proof (intro allI impI)
      fix j assume j: "j < k"
      then have jl: "j < length leaders" using kl by simp
      have "leaders ! j < leaders ! k" by (rule sorted_distinct_nth_less [OF sorted dist j kl])
      then show "start_line (snd (blocks ! j)) < start_line (snd (blocks ! k))"
        by (simp add: nth [OF jl] nth [OF kl] block_at_def make_block_def Let_def)
    qed
    have c7: "k + 1 < length blocks \<longrightarrow>
             start_line (snd (blocks ! (k + 1))) = end_line (snd (blocks ! k)) + 1"
    proof
      assume "k + 1 < length blocks"
      then have k1: "k + 1 < length leaders" by (simp add: len)
      show "start_line (snd (blocks ! (k + 1))) = end_line (snd (blocks ! k)) + 1"
        using k1 nth [OF k1] by (simp add: b block_at_def make_block_def Let_def)
    qed
    from c1 c2 c3 c4 c5 c6 c7 show ?thesis by blast
  qed
  from zero sorted dist len cat first lastb each show ?thesis by blast
qed

theorem blocks_partition_lines_witness:
  "[''x = 1;'', ''if (x)'', ''y = 2;''] \<noteq> [] \<and>
   find_leaders [''x = 1;'', ''if (x)'', ''y = 2;''] = [0, 1, 2] \<and>
   concat (map (\<lambda>(bid, b). code b)
     (create_basic_blocks [''x = 1;'', ''if (x)'', ''y = 2;''] (find_leaders [''x = 1;'', ''if (x)'', ''y = 2;''])))
     = [''x = 1;'', ''if (x)'', ''y = 2;''] \<and>
   fst (create_basic_blocks [''x = 1;'', ''if (x)'', ''y = 2;'']
          (find_leaders [''x = 1;'', ''if (x)'', ''y = 2;'']) ! 1) = block_name 1"
proof -
  have ne: "[''x = 1;'', ''if (x)'', ''y = 2;''] \<noteq> []" by simp
  have l: "find_leaders [''x = 1;'', ''if (x)'', ''y = 2;''] = [0, 1, 2]" by code_simp
  have n: "length (create_basic_blocks [''x = 1;'', ''if (x)'', ''y = 2;'']
          (find_leaders [''x = 1;'', ''if (x)'', ''y = 2;''])) = 3" by code_simp
  from blocks_partition_lines [OF ne] n l show ?thesis by simp
qed


subsection \<open>The graph builder\<close>

lemma dict_get_in: "distinct (map fst d) \<Longrightarrow> (k, v) \<in> set d \<Longrightarrow> dict_get d k = Inr v"
  by (simp add: dict_get_map_of)

lemma dict_get_nth:
  "distinct (map fst d) \<Longrightarrow> i < length d \<Longrightarrow> dict_get d (fst (d ! i)) = Inr (snd (d ! i))"
  by (rule dict_get_in) (auto simp: in_set_conv_nth)

lemma foldE_append: "foldE f (xs @ ys) s = bindE (foldE f xs s) (foldE f ys)"
  by (induction xs arbitrary: s) (auto, case_tac "f a s", auto)

lemma first_line_hd: "c \<noteq> [] \<Longrightarrow> first_line c = Inr (hd c)"
  by (cases c) (auto simp: first_line_def)

lemma last_line_last: "c \<noteq> [] \<Longrightarrow> last_line c = Inr (last c)"
  by (simp add: last_line_def)

lemma find_else_eq:
  assumes "distinct (map fst blocks)" "\<forall>(k, b) \<in> set blocks. code b \<noteq> []"
  shows "set rest \<subseteq> set blocks \<Longrightarrow>
     find_else blocks (map fst rest) =
       Inr (map_option fst (find (\<lambda>(k, b'). contains ''else'' (hd (code b'))) rest))"
proof (induction rest)
  case Nil
  show ?case by simp
next
  case (Cons p rest)
  obtain k b where p: "p = (k, b)" by (cases p)
  with Cons.prems have mem: "(k, b) \<in> set blocks" by simp
  then have get: "dict_get blocks k = Inr b" by (rule dict_get_in [OF assms(1)])
  from mem assms(2) have "code b \<noteq> []" by auto
  then have fl: "first_line (code b) = Inr (hd (code b))" by (rule first_line_hd)
  from Cons.prems have "set rest \<subseteq> set blocks" by simp
  with Cons.IH p get fl show ?case by simp
qed

lemma block_edges_eq:
  assumes d: "distinct (map fst blocks)" and ne: "\<forall>(k, b) \<in> set blocks. code b \<noteq> []"
    and i: "i < length blocks"
  shows "block_edges blocks i (fst (blocks ! i)) = Inr (edges_at blocks i)"
proof -
  let ?b = "snd (blocks ! i)"
  have get: "dict_get blocks (fst (blocks ! i)) = Inr ?b" by (rule dict_get_nth [OF d i])
  have "(fst (blocks ! i), ?b) \<in> set blocks" using i by (auto simp: in_set_conv_nth)
  with ne have cne: "code ?b \<noteq> []" by auto
  have ll: "last_line (code ?b) = Inr (last (code ?b))" by (rule last_line_last [OF cne])
  have fl: "first_line (code ?b) = Inr (hd (code ?b))" by (rule first_line_hd [OF cne])
  have "set (drop (i + 1) blocks) \<subseteq> set blocks" by (rule set_drop_subset)
  from find_else_eq [OF d ne this]
  have fe: "find_else blocks (drop (i + 1) (map fst blocks)) =
       Inr (map_option fst (find (\<lambda>(k, b'). contains ''else'' (hd (code b'))) (drop (i + 1) blocks)))"
    by (simp add: drop_map)
  show ?thesis
    unfolding block_edges_def edges_at_def Let_def
    by (simp only: get ll fl fe bindE.simps)
       (auto split: option.splits)
qed


lemma update_nth:
  "distinct (map fst al) \<Longrightarrow> m < length al \<Longrightarrow>
   AList.update (fst (al ! m)) v al = al[m := (fst (al ! m), v)]"
proof (induction al arbitrary: m)
  case Nil
  then show ?case by simp
next
  case (Cons p al)
  show ?case
  proof (cases m)
    case 0
    then show ?thesis by simp
  next
    case (Suc m')
    from Cons.prems(2) Suc have m': "m' < length al" by simp
    then have "al ! m' \<in> set al" by simp
    then have mem: "fst (al ! m') \<in> fst ` set al" by (rule imageI)
    from Cons.prems(1) have "fst p \<notin> fst ` set al" by simp
    with mem have neq: "fst p \<noteq> fst (al ! m')" by metis
    from Cons.prems(1) have "distinct (map fst al)" by simp
    from Cons.IH [OF this m'] neq Suc show ?thesis by simp
  qed
qed

lemma cfg_after_keys: "map fst (cfg_after blocks m) = map fst blocks"
  by (rule nth_equalityI) (simp_all add: cfg_after_def)

lemma cfg_after_0: "cfg_after blocks 0 = map (\<lambda>(bid, b). (bid, [])) blocks"
  by (rule nth_equalityI) (simp_all add: cfg_after_def split: prod.splits)

lemma cfg_after_step:
  assumes d: "distinct (map fst blocks)" and m: "m < length blocks"
  shows "append_edges (fst (blocks ! m)) (edges_at blocks m) (cfg_after blocks m)
           = Inr (cfg_after blocks (Suc m))"
proof -
  let ?c = "cfg_after blocks m"
  have dc: "distinct (map fst ?c)" using d by (simp add: cfg_after_keys)
  have lc: "m < length ?c" using m by (simp add: cfg_after_def)
  have nth: "?c ! m = (fst (blocks ! m), [])" using m by (simp add: cfg_after_def)
  have get: "dict_get ?c (fst (blocks ! m)) = Inr []"
    using dict_get_nth [OF dc lc] nth by simp
  have upd: "AList.update (fst (blocks ! m)) (edges_at blocks m) ?c
               = ?c[m := (fst (blocks ! m), edges_at blocks m)]"
    using update_nth [OF dc lc, of "edges_at blocks m"] nth by simp
  have "?c[m := (fst (blocks ! m), edges_at blocks m)] = cfg_after blocks (Suc m)"
    using m by (intro nth_equalityI) (auto simp: cfg_after_def nth_list_update)
  with get upd show ?thesis by (simp add: append_edges_def)
qed

lemma build_cfg_fold:
  assumes d: "distinct (map fst blocks)" and ne: "\<forall>(k, b) \<in> set blocks. code b \<noteq> []"
  shows "m \<le> length blocks \<Longrightarrow>
     foldE (\<lambda>(i, bid) cfg. bindE (block_edges blocks i bid) (\<lambda>es. append_edges bid es cfg))
       (take m (enumerate 0 (map fst blocks))) (cfg_after blocks 0) = Inr (cfg_after blocks m)"
proof (induction m)
  case 0
  show ?case by simp
next
  case (Suc m)
  then have m: "m < length blocks" by simp
  have "take (Suc m) (enumerate 0 (map fst blocks))
          = take m (enumerate 0 (map fst blocks)) @ [(m, fst (blocks ! m))]"
    using m by (simp add: take_Suc_conv_app_nth nth_enumerate_eq)
  with Suc.IH m block_edges_eq [OF d ne m] cfg_after_step [OF d m]
  show ?case by (simp add: foldE_append)
qed

lemma build_cfg_eq:
  assumes d: "distinct (map fst blocks)" and ne: "\<forall>(k, b) \<in> set blocks. code b \<noteq> []"
  shows "build_cfg blocks =
     Inr (map (\<lambda>j. (fst (blocks ! j), sort (remdups (edges_at blocks j)))) [0..<length blocks])"
proof -
  have "foldE (\<lambda>(i, bid) cfg. bindE (block_edges blocks i bid) (\<lambda>es. append_edges bid es cfg))
       (enumerate 0 (map fst blocks)) (map (\<lambda>(bid, b). (bid, [])) blocks)
     = Inr (cfg_after blocks (length blocks))"
    using build_cfg_fold [OF d ne, of "length blocks"] by (simp add: cfg_after_0)
  then show ?thesis
    by (simp add: build_cfg_def cfg_after_def comp_def)
qed


lemma foldE_success_step:
  "foldE f xs s = Inr s' \<Longrightarrow> x \<in> set xs \<Longrightarrow> \<exists>s1 s2. f x s1 = Inr s2"
proof (induction xs arbitrary: s)
  case Nil
  then show ?case by simp
next
  case (Cons y ys)
  show ?case
  proof (cases "f y s")
    case (Inl e)
    with Cons.prems show ?thesis by simp
  next
    case (Inr s1)
    with Cons show ?thesis by (cases "x = y") auto
  qed
qed

lemma bindE_Inr: "bindE m f = Inr v \<Longrightarrow> \<exists>a. m = Inr a \<and> f a = Inr v"
  by (cases m) auto

lemma build_cfg_success_nonempty:
  assumes d: "distinct (map fst blocks)" and ok: "build_cfg blocks = Inr cfg"
  shows "\<forall>(k, b) \<in> set blocks. code b \<noteq> []"
proof (clarify)
  fix k b assume mem: "(k, b) \<in> set blocks" and empty: "code b = []"
  then obtain i where i: "i < length blocks" "blocks ! i = (k, b)" by (auto simp: in_set_conv_nth)
  let ?f = "\<lambda>(i, bid) cfg. bindE (block_edges blocks i bid) (\<lambda>es. append_edges bid es cfg)"
  from ok obtain c where fold: "foldE ?f (enumerate 0 (map fst blocks))
              (map (\<lambda>(bid, b). (bid, [])) blocks) = Inr c"
    unfolding build_cfg_def by (auto dest: bindE_Inr)
  have "(i, k) \<in> set (enumerate 0 (map fst blocks))"
    using i by (auto simp: in_set_enumerate_eq)
  from foldE_success_step [OF fold this] obtain s1 s2 where "?f (i, k) s1 = Inr s2" by blast
  then obtain es where es: "block_edges blocks i k = Inr es" by (auto dest: bindE_Inr)
  have "dict_get blocks k = Inr b" using d mem by (rule dict_get_in)
  then have "block_edges blocks i k = Inl IndexError"
    using empty by (simp add: block_edges_def last_line_def)
  with es show False by simp
qed

text \<open>
  C7. Whenever the graph builder returns a graph for a block dictionary, the graph has the
  blocks' keys in order, and for every block whose last line matches an \<open>if\<close>,
  \<open>while\<close> or \<open>for\<close> opening the edge list is, de-duplicated and sorted, the edge to
  the next block (when there is one) followed by the edge to the first later block whose
  first line contains \<open>else\<close>, or, when no later block has one, the edge to the block two
  positions ahead (when there is one). Every edge list of the graph is sorted and free of
  duplicates.
\<close>

theorem conditional_block_edges:
  assumes d: "distinct (map fst blocks)" and ok: "build_cfg blocks = Inr cfg"
    and i: "i < length blocks"
    and cond: "match_kw_paren [''if'', ''while'', ''for''] (last (code (snd (blocks ! i))))"
  shows "map fst cfg = map fst blocks
    \<and> snd (cfg ! i) = sort (remdups (
         (if i + 1 < length blocks then [fst (blocks ! (i + 1))] else []) @
         (case find (\<lambda>(k, b). contains ''else'' (hd (code b))) (drop (i + 1) blocks) of
            Some (k, b) \<Rightarrow> [k]
          | None \<Rightarrow> if i + 2 < length blocks then [fst (blocks ! (i + 2))] else [])))
    \<and> (\<forall>(k, es) \<in> set cfg. sorted es \<and> distinct es)"
proof -
  have ne: "\<forall>(k, b) \<in> set blocks. code b \<noteq> []"
    by (rule build_cfg_success_nonempty [OF d ok])
  from build_cfg_eq [OF d ne] ok
  have cfg: "cfg = map (\<lambda>j. (fst (blocks ! j), sort (remdups (edges_at blocks j)))) [0..<length blocks]"
    by simp
  have keys: "map fst cfg = map fst blocks"
    by (rule nth_equalityI) (simp_all add: cfg)
  have edges: "snd (cfg ! i) = sort (remdups (edges_at blocks i))"
    using i by (simp add: cfg)
  have at: "edges_at blocks i =
         (if i + 1 < length blocks then [fst (blocks ! (i + 1))] else []) @
         (case find (\<lambda>(k, b). contains ''else'' (hd (code b))) (drop (i + 1) blocks) of
            Some (k, b) \<Rightarrow> [k]
          | None \<Rightarrow> if i + 2 < length blocks then [fst (blocks ! (i + 2))] else [])"
    using cond i by (simp add: edges_at_def Let_def split: option.splits)
  have srt: "\<forall>(k, es) \<in> set cfg. sorted es \<and> distinct es"
    by (auto simp: cfg)
  from keys edges at srt show ?thesis by simp
qed


theorem conditional_block_edges_witness:
  "distinct (map fst [(''B0'', \<lparr>code = [''if (x > 0)''], start_line = 0, end_line = 0\<rparr>),
                      (''B1'', \<lparr>code = [''y = 1;''], start_line = 1, end_line = 1\<rparr>),
                      (''B2'', \<lparr>code = [''else {'', ''y = 2;'', ''}''], start_line = 2, end_line = 4\<rparr>)])
   \<and> build_cfg [(''B0'', \<lparr>code = [''if (x > 0)''], start_line = 0, end_line = 0\<rparr>),
                (''B1'', \<lparr>code = [''y = 1;''], start_line = 1, end_line = 1\<rparr>),
                (''B2'', \<lparr>code = [''else {'', ''y = 2;'', ''}''], start_line = 2, end_line = 4\<rparr>)]
        = Inr [(''B0'', [''B1'', ''B2'']), (''B1'', [''B2'']), (''B2'', [])]
   \<and> match_kw_paren [''if'', ''while'', ''for''] ''if (x > 0)''
   \<and> snd ([(''B0'', [''B1'', ''B2'']), (''B1'', [''B2'']), (''B2'', [])] ! 0) = sort (remdups [''B1'', ''B2''])"
proof -
  let ?B = "[(''B0'', \<lparr>code = [''if (x > 0)''], start_line = 0, end_line = 0\<rparr>),
             (''B1'', \<lparr>code = [''y = 1;''], start_line = 1, end_line = 1\<rparr>),
             (''B2'', \<lparr>code = [''else {'', ''y = 2;'', ''}''], start_line = 2, end_line = 4\<rparr>)]"
  let ?C = "[(''B0'', [''B1'', ''B2'']), (''B1'', [''B2'']), (''B2'', [])]"
  have d: "distinct (map fst ?B)" by simp
  have ok: "build_cfg ?B = Inr ?C" by code_simp
  have i: "0 < length ?B" by simp
  have m: "match_kw_paren [''if'', ''while'', ''for''] ''if (x > 0)''" by code_simp
  then have cond: "match_kw_paren [''if'', ''while'', ''for''] (last (code (snd (?B ! 0))))" by simp
  have e: "\<not> contains ''else'' ''y = 1;''" by code_simp
  have e2: "contains ''else'' ''else {''" by code_simp
  from conditional_block_edges [OF d ok i cond] e e2
  have "snd (?C ! 0) = sort (remdups [''B1'', ''B2''])" by simp
  with d ok m show ?thesis by simp
qed

lemma sum_list_indicator_all:
  "list_all P xs \<Longrightarrow> sum_list (map (\<lambda>i. if P i then 1 else 0) xs) = (length xs :: nat)"
  by (induction xs) auto

lemma sum_list_all_but_last:
  "sum_list (map (\<lambda>i. if i + 1 < n then 1 else 0) [0..<n]) = (n - 1 :: nat)"
proof (cases n)
  case 0
  then show ?thesis by simp
next
  case (Suc m)
  have "list_all (\<lambda>i. i < m) [0..<m]" by (simp add: list_all_iff)
  from sum_list_indicator_all [OF this] Suc show ?thesis by simp
qed

lemma slice_subset: "set (slice xs a b) \<subseteq> set xs"
  unfolding slice_def by (meson set_take_subset set_drop_subset subset_trans)

lemma pipeline_blocks_wf:
  assumes nonempty: "lines \<noteq> []"
  defines "blocks \<equiv> create_basic_blocks lines (find_leaders lines)"
  shows "distinct (map fst blocks)" and "blocks \<noteq> []"
    and "\<forall>(k, b) \<in> set blocks. code b \<noteq> [] \<and> set (code b) \<subseteq> set lines"
proof -
  let ?ls = "find_leaders lines"
  note lp = find_leaders_props [OF nonempty]
  have blocks: "blocks = map (block_at lines ?ls) [0..<length ?ls]"
    by (simp add: blocks_def create_basic_blocks_eq)
  have "map fst blocks = map block_name [0..<length ?ls]"
    by (simp add: blocks comp_def)
  moreover have "distinct (map block_name [0..<length ?ls])"
    by (auto simp: distinct_map inj_on_def dest: block_name_inj)
  ultimately show "distinct (map fst blocks)" by simp
  from lp(1) have "?ls \<noteq> []" by auto
  then show "blocks \<noteq> []" by (simp add: blocks)
  show "\<forall>(k, b) \<in> set blocks. code b \<noteq> [] \<and> set (code b) \<subseteq> set lines"
  proof (clarify)
    fix k b assume "(k, b) \<in> set blocks"
    then obtain i where i: "i < length ?ls" and kb: "(k, b) = block_at lines ?ls i"
      by (auto simp: blocks)
    let ?e = "if i + 1 < length ?ls then ?ls ! (i + 1) else length lines"
    have lt: "?ls ! i < ?e"
      using i lp(4) sorted_distinct_nth_less [OF lp(2) lp(3), of i "i + 1"] by auto
    have le: "?e \<le> length lines" using lp(4) by (auto simp: less_imp_le)
    have c: "code b = slice lines (?ls ! i) ?e"
      using kb by (simp add: block_at_def make_block_def Let_def)
    have "code b \<noteq> []" using lt le by (simp add: c slice_def)
    moreover have "set (code b) \<subseteq> set lines" unfolding c by (rule slice_subset)
    ultimately show "code b \<noteq> [] \<and> set (code b) \<subseteq> set lines" by simp
  qed
qed


text \<open>
  C6, as stated, fails: the input \<open>return 0;\<close>, \<open>x = 1;\<close> has no \<open>if\<close>, \<open>while\<close>
  or \<open>for\<close> anywhere, yet its graph has two blocks and no edge (a block ending in
  \<open>return\<close> gets no fall-through edge), so E is 0 and not N - 1, and the complexity is 0.
\<close>

theorem sequential_metrics_counterexample:
  "list_all (\<lambda>l. \<not> contains ''if'' l \<and> \<not> contains ''while'' l \<and> \<not> contains ''for'' l)
     [''return 0;'', ''x = 1;'']
   \<and> map_sum id calculate_metrics
        (build_cfg (create_basic_blocks [''return 0;'', ''x = 1;''] (find_leaders [''return 0;'', ''x = 1;''])))
      = Inr (2, 0, 0)"
  by code_simp

lemma edges_at_sequential:
  assumes i: "i < length blocks"
    and nc: "\<not> match_kw_paren [''if'', ''while'', ''for''] (last (code (snd (blocks ! i))))"
    and nj: "\<not> list_ex (\<lambda>kw. contains kw (last (code (snd (blocks ! i))))) [''return'', ''break'', ''goto'']"
  shows "length (sort (remdups (edges_at blocks i))) = (if i + 1 < length blocks then 1 else 0)"
proof -
  have "\<exists>x. edges_at blocks i = (if i + 1 < length blocks then [x] else [])"
    using nc nj unfolding edges_at_def Let_def by (simp only: if_False if_True) auto
  then obtain x where "edges_at blocks i = (if i + 1 < length blocks then [x] else [])" ..
  then show ?thesis by simp
qed

lemma foldE_invariant:
  assumes "\<And>x s s1. f x s = Inr s1 \<Longrightarrow> P s \<Longrightarrow> P s1"
  shows "foldE f xs s = Inr s' \<Longrightarrow> P s \<Longrightarrow> P s'"
proof (induction xs arbitrary: s)
  case Nil
  then show ?case by simp
next
  case (Cons x xs)
  from Cons.prems(1) obtain s1 where s1: "f x s = Inr s1" and rest: "foldE f xs s1 = Inr s'"
    by (auto dest!: bindE_Inr)
  from assms [OF s1 Cons.prems(2)] have "P s1" .
  from Cons.IH [OF rest this] show ?case .
qed

lemma dict_get_key: "dict_get d k = Inr v \<Longrightarrow> k \<in> fst ` set d"
proof -
  assume "dict_get d k = Inr v"
  then have "map_of d k = Some v" by (auto simp: dict_get_map_of split: option.splits)
  then have "(k, v) \<in> set d" by (rule map_of_SomeD)
  then show ?thesis by force
qed

lemma append_edges_keys: "append_edges k es cfg = Inr cfg1 \<Longrightarrow> map fst cfg1 = map fst cfg"
proof -
  assume "append_edges k es cfg = Inr cfg1"
  then obtain old where old: "dict_get cfg k = Inr old"
    and c1: "cfg1 = AList.update k (old @ es) cfg"
    unfolding append_edges_def by (auto dest!: bindE_Inr)
  from dict_get_key [OF old] show ?thesis unfolding c1 by (auto simp: update_keys)
qed

lemma build_cfg_keys:
  assumes "build_cfg blocks = Inr cfg"
  shows "map fst cfg = map fst blocks"
proof -
  let ?f = "\<lambda>(i, bid) cfg. bindE (block_edges blocks i bid) (\<lambda>es. append_edges bid es cfg)"
  from assms obtain c where fold: "foldE ?f (enumerate 0 (map fst blocks))
              (map (\<lambda>(bid, b). (bid, [])) blocks) = Inr c"
    and cfg: "cfg = map (\<lambda>(bid, es). (bid, sort (remdups es))) c"
    unfolding build_cfg_def by (auto dest!: bindE_Inr)
  have step: "map fst s1 = map fst blocks" if "?f x s = Inr s1" "map fst s = map fst blocks" for x s s1
  proof -
    obtain i bid where x: "x = (i, bid)" by (cases x)
    with that(1) obtain es where "append_edges bid es s = Inr s1" by (auto dest!: bindE_Inr)
    from append_edges_keys [OF this] that(2) show ?thesis by simp
  qed
  have init: "map fst (map (\<lambda>(bid, b). (bid, [] :: string list)) blocks) = map fst blocks"
    by (simp add: comp_def case_prod_unfold)
  have "map fst c = map fst blocks"
    by (rule foldE_invariant [where P = "\<lambda>s. map fst s = map fst blocks", OF step fold init])
  then show ?thesis unfolding cfg by (simp add: comp_def case_prod_unfold)
qed

lemma sequential_pipeline_metrics:
  assumes nonempty: "lines \<noteq> []"
    and plain: "list_all (\<lambda>l. \<not> match_kw_paren [''if'', ''while'', ''for''] l
                   \<and> \<not> list_ex (\<lambda>kw. contains kw l) [''return'', ''break'', ''goto'']) lines"
  shows "(\<forall>c. calculate_metrics c =
            (int (length c), int (sum_list (map (\<lambda>(bid, edges). length edges) c)),
             int (sum_list (map (\<lambda>(bid, edges). length edges) c)) - int (length c) + 2))
    \<and> (\<exists>cfg. build_cfg (create_basic_blocks lines (find_leaders lines)) = Inr cfg
           \<and> length cfg = length (create_basic_blocks lines (find_leaders lines))
           \<and> calculate_metrics cfg = (int (length cfg), int (length cfg) - 1, 1))"
proof -
  let ?blocks = "create_basic_blocks lines (find_leaders lines)"
  let ?n = "length ?blocks"
  note wf = pipeline_blocks_wf [OF nonempty]
  have ne: "\<forall>(k, b) \<in> set ?blocks. code b \<noteq> []" using wf(3) by auto
  let ?cfg = "map (\<lambda>j. (fst (?blocks ! j), sort (remdups (edges_at ?blocks j)))) [0..<?n]"
  have cfg: "build_cfg ?blocks = Inr ?cfg" by (rule build_cfg_eq [OF wf(1) ne])
  have len: "length ?cfg = ?n" by simp
  have each: "length (sort (remdups (edges_at ?blocks j))) = (if j + 1 < ?n then 1 else 0)"
    if j: "j < ?n" for j
  proof -
    have mem: "?blocks ! j \<in> set ?blocks" using j by simp
    obtain k b where kb: "?blocks ! j = (k, b)" by (cases "?blocks ! j")
    from mem wf(3) have "code b \<noteq> []" "set (code b) \<subseteq> set lines"
      unfolding kb by auto
    then have "code (snd (?blocks ! j)) \<noteq> []" "set (code (snd (?blocks ! j))) \<subseteq> set lines"
      by (simp_all add: kb)
    then have "last (code (snd (?blocks ! j))) \<in> set lines" using last_in_set by blast
    with plain have "\<not> match_kw_paren [''if'', ''while'', ''for''] (last (code (snd (?blocks ! j))))"
      and "\<not> list_ex (\<lambda>kw. contains kw (last (code (snd (?blocks ! j))))) [''return'', ''break'', ''goto'']"
      by (auto simp: list_all_iff)
    then show ?thesis by (rule edges_at_sequential [OF j])
  qed
  have "map (\<lambda>(bid, edges). length edges) ?cfg =
          map (\<lambda>j. length (sort (remdups (edges_at ?blocks j)))) [0..<?n]"
    by simp
  also have "\<dots> = map (\<lambda>j. if j + 1 < ?n then 1 else 0) [0..<?n]"
  proof (rule map_cong [OF refl])
    fix j assume "j \<in> set [0..<?n]"
    then have "j < ?n" by simp
    then show "length (sort (remdups (edges_at ?blocks j))) = (if j + 1 < ?n then 1 else 0)"
      by (rule each)
  qed
  finally have sum: "sum_list (map (\<lambda>(bid, edges). length edges) ?cfg) = ?n - 1"
    by (simp only: sum_list_all_but_last)
  have "1 \<le> ?n" using wf(2) by (cases ?blocks) auto
  then have "int (?n - 1) = int ?n - int 1" by (rule of_nat_diff)
  then have edges: "int (sum_list (map (\<lambda>(bid, edges). length edges) ?cfg)) = int ?n - 1"
    unfolding sum by simp
  have m: "calculate_metrics ?cfg = (int (length ?cfg), int (length ?cfg) - 1, 1)"
    unfolding calculate_metrics_def Let_def edges len by simp
  have gen: "\<forall>c. calculate_metrics c =
            (int (length c), int (sum_list (map (\<lambda>(bid, edges). length edges) c)),
             int (sum_list (map (\<lambda>(bid, edges). length edges) c)) - int (length c) + 2)"
    by (simp add: calculate_metrics_def Let_def)
  from cfg len m have "\<exists>cfg. build_cfg ?blocks = Inr cfg \<and> length cfg = ?n
           \<and> calculate_metrics cfg = (int (length cfg), int (length cfg) - 1, 1)"
    by blast
  with gen show ?thesis by blast
qed

text \<open>
  C6, amended. For every graph the graph builder returns, the metrics calculator returns
  N, the number of blocks, E, the total number of outgoing edges over all blocks, and
  E - N + 2. For every non-empty input in which no line matches an \<open>if\<close>, \<open>while\<close> or
  \<open>for\<close> opening and no line contains \<open>return\<close>, \<open>break\<close> or \<open>goto\<close>, the graph is
  built and satisfies E = N - 1 with complexity 1.
\<close>

theorem metrics_sequential:
  "(build_cfg blocks = Inr cfg \<longrightarrow>
      calculate_metrics cfg =
        (int (length blocks), int (sum_list (map (\<lambda>(bid, edges). length edges) cfg)),
         int (sum_list (map (\<lambda>(bid, edges). length edges) cfg)) - int (length blocks) + 2))
   \<and> (lines \<noteq> []
        \<and> list_all (\<lambda>l. \<not> match_kw_paren [''if'', ''while'', ''for''] l
                   \<and> \<not> list_ex (\<lambda>kw. contains kw l) [''return'', ''break'', ''goto'']) lines \<longrightarrow>
      (\<exists>cfg'. build_cfg (create_basic_blocks lines (find_leaders lines)) = Inr cfg'
         \<and> calculate_metrics cfg' =
             (int (length (create_basic_blocks lines (find_leaders lines))),
              int (length (create_basic_blocks lines (find_leaders lines))) - 1, 1)))"
proof (intro conjI impI)
  assume ok: "build_cfg blocks = Inr cfg"
  have "length (map fst cfg) = length (map fst blocks)"
    by (simp only: build_cfg_keys [OF ok])
  then have "length cfg = length blocks" by simp
  then show "calculate_metrics cfg =
        (int (length blocks), int (sum_list (map (\<lambda>(bid, edges). length edges) cfg)),
         int (sum_list (map (\<lambda>(bid, edges). length edges) cfg)) - int (length blocks) + 2)"
    by (simp add: calculate_metrics_def Let_def)
next
  assume "lines \<noteq> []
        \<and> list_all (\<lambda>l. \<not> match_kw_paren [''if'', ''while'', ''for''] l
                   \<and> \<not> list_ex (\<lambda>kw. contains kw l) [''return'', ''break'', ''goto'']) lines"
  then have ne: "lines \<noteq> []"
    and plain: "list_all (\<lambda>l. \<not> match_kw_paren [''if'', ''while'', ''for''] l
                   \<and> \<not> list_ex (\<lambda>kw. contains kw l) [''return'', ''break'', ''goto'']) lines"
    by simp_all
  from sequential_pipeline_metrics [OF ne plain] obtain cfg' where
    "build_cfg (create_basic_blocks lines (find_leaders lines)) = Inr cfg'"
    "length cfg' = length (create_basic_blocks lines (find_leaders lines))"
    "calculate_metrics cfg' = (int (length cfg'), int (length cfg') - 1, 1)" by blast
  then show "\<exists>cfg'. build_cfg (create_basic_blocks lines (find_leaders lines)) = Inr cfg'
         \<and> calculate_metrics cfg' =
             (int (length (create_basic_blocks lines (find_leaders lines))),
              int (length (create_basic_blocks lines (find_leaders lines))) - 1, 1)"
    by auto
qed

theorem metrics_sequential_witness:
  "build_cfg [(''B0'', \<lparr>code = [''if (x > 0)''], start_line = 0, end_line = 0\<rparr>),
              (''B1'', \<lparr>code = [''y = 1;''], start_line = 1, end_line = 1\<rparr>),
              (''B2'', \<lparr>code = [''else {'', ''y = 2;'', ''}''], start_line = 2, end_line = 4\<rparr>)]
     = Inr [(''B0'', [''B1'', ''B2'']), (''B1'', [''B2'']), (''B2'', [])]
   \<and> calculate_metrics [(''B0'', [''B1'', ''B2'']), (''B1'', [''B2'']), (''B2'', [])] = (3, 3, 2)
   \<and> [''x = 1;'', ''}'', ''y = 2;''] \<noteq> []
   \<and> list_all (\<lambda>l. \<not> match_kw_paren [''if'', ''while'', ''for''] l
                   \<and> \<not> list_ex (\<lambda>kw. contains kw l) [''return'', ''break'', ''goto''])
        [''x = 1;'', ''}'', ''y = 2;'']
   \<and> map_sum id calculate_metrics
        (build_cfg (create_basic_blocks [''x = 1;'', ''}'', ''y = 2;''] (find_leaders [''x = 1;'', ''}'', ''y = 2;''])))
      = Inr (2, 1, 1)"
proof -
  let ?B = "[(''B0'', \<lparr>code = [''if (x > 0)''], start_line = 0, end_line = 0\<rparr>),
             (''B1'', \<lparr>code = [''y = 1;''], start_line = 1, end_line = 1\<rparr>),
             (''B2'', \<lparr>code = [''else {'', ''y = 2;'', ''}''], start_line = 2, end_line = 4\<rparr>)]"
  let ?C = "[(''B0'', [''B1'', ''B2'']), (''B1'', [''B2'']), (''B2'', [])]"
  let ?l = "[''x = 1;'', ''}'', ''y = 2;'']"
  have ok: "build_cfg ?B = Inr ?C" by code_simp
  have a: "?l \<noteq> []" by simp
  have b: "list_all (\<lambda>l. \<not> match_kw_paren [''if'', ''while'', ''for''] l
                   \<and> \<not> list_ex (\<lambda>kw. contains kw l) [''return'', ''break'', ''goto'']) ?l"
    by code_simp
  have n: "length (create_basic_blocks ?l (find_leaders ?l)) = 2" by code_simp
  note t = metrics_sequential [of ?B ?C ?l]
  from t ok have m: "calculate_metrics ?C = (3, 3, 2)" by simp
  from t a b n
  have "map_sum id calculate_metrics (build_cfg (create_basic_blocks ?l (find_leaders ?l))) = Inr (2, 1, 1)"
    by auto
  with ok m a b show ?thesis by simp
qed

subsection \<open>Definitions, gen and kill\<close>

lemma def_name_inj: "def_name m = def_name n \<Longrightarrow> m = n"
  by (simp add: def_name_def str_nat_inj)

lemma var_ids_append:
  "var_ids (defs @ [(d, info)]) v = (if var info = v then insert d (var_ids defs v) else var_ids defs v)"
  by (auto simp: var_ids_def)

lemma def_step_ok:
  assumes ok: "defs_ok K st" and bid: "bid \<in> K"
  shows "defs_ok K (def_step bid l st)"
proof -
  obtain defs cnt v2d where st: "st = (defs, cnt, v2d)" by (cases st)
  show ?thesis
  proof (cases "match_definition l")
    case None
    with ok st show ?thesis by (simp add: def_step_def)
  next
    case (Some v)
    let ?d = "def_name cnt"
    let ?info = "\<lparr>var = v, block = bid, line = l\<rparr>"
    let ?old = "case map_of v2d v of None \<Rightarrow> {} | Some ds \<Rightarrow> ds"
    from ok st have cnt: "1 \<le> cnt" and keys: "fst ` set defs = def_name ` {1..<cnt}"
      and dist: "distinct (map fst defs)" and blk: "\<forall>(d, info) \<in> set defs. block info \<in> K"
      and idx: "\<forall>v. map_of v2d v = (if var_ids defs v = {} then None else Some (var_ids defs v))"
      by (auto simp: defs_ok_def)
    have fresh: "?d \<notin> fst ` set defs"
      unfolding keys by (auto dest: def_name_inj)
    then have upd: "AList.update ?d ?info defs = defs @ [(?d, ?info)]" by (rule update_fresh)
    have step: "def_step bid l st =
        (defs @ [(?d, ?info)], cnt + 1, AList.update v (insert ?d ?old) v2d)"
      by (simp add: st def_step_def Some upd Let_def)
    have old: "?old = var_ids defs v" using idx by (auto split: option.splits)
    have k: "fst ` set (defs @ [(?d, ?info)]) = def_name ` {1..<cnt + 1}"
    proof -
      have "{1..<cnt + 1} = insert cnt {1..<cnt}" using cnt by auto
      then show ?thesis using keys by auto
    qed
    have d2: "distinct (map fst (defs @ [(?d, ?info)]))" using dist fresh by simp
    have b2: "\<forall>(d, info) \<in> set (defs @ [(?d, ?info)]). block info \<in> K" using blk bid by auto
    have i2: "map_of (AList.update v (insert ?d ?old) v2d) w =
        (if var_ids (defs @ [(?d, ?info)]) w = {} then None else Some (var_ids (defs @ [(?d, ?info)]) w))"
      for w
      using idx by (simp add: update_conv' var_ids_append old)
    from cnt k d2 b2 i2 show ?thesis unfolding step defs_ok_def by simp
  qed
qed

lemma find_definitions_ok:
  assumes "find_definitions blocks = (definitions, var_to_defs)"
  shows "distinct (map fst definitions)"
    and "\<forall>(d, info) \<in> set definitions. block info \<in> fst ` set blocks"
    and "\<forall>v. map_of var_to_defs v =
           (if var_ids definitions v = {} then None else Some (var_ids definitions v))"
proof -
  let ?K = "fst ` set blocks"
  have init: "defs_ok ?K ([], 1, [])" by (simp add: defs_ok_def var_ids_def)
  have inner: "defs_ok ?K (fold (def_step bid) c st)" if "defs_ok ?K st" "bid \<in> ?K" for bid c st
    by (rule fold_invariant [where Q = "\<lambda>x. True"]) (auto intro: that def_step_ok)
  have "defs_ok ?K (fold (\<lambda>(bid, block_info) st. fold (def_step bid) (code block_info) st) blocks ([], 1, []))"
  proof (rule fold_invariant [where Q = "\<lambda>x. x \<in> set blocks"])
    fix x assume "x \<in> set blocks" then show "x \<in> set blocks" .
  next
    show "defs_ok ?K ([], 1, [])" by (rule init)
  next
    fix x st assume x: "x \<in> set blocks" and st: "defs_ok ?K st"
    obtain bid b where xb: "x = (bid, b)" by (cases x)
    with x have "bid \<in> ?K" by force
    from inner [OF st this]
    show "defs_ok ?K ((\<lambda>(bid, block_info) st. fold (def_step bid) (code block_info) st) x st)"
      by (simp add: xb)
  qed
  moreover obtain cnt where "fold (\<lambda>(bid, block_info) st. fold (def_step bid) (code block_info) st) blocks ([], 1, [])
      = (definitions, cnt, var_to_defs)"
    using assms by (auto simp: find_definitions_def split: prod.splits)
  ultimately have ok: "defs_ok ?K (definitions, cnt, var_to_defs)" by simp
  then show "distinct (map fst definitions)"
    and "\<forall>(d, info) \<in> set definitions. block info \<in> fst ` set blocks"
    and "\<forall>v. map_of var_to_defs v =
           (if var_ids definitions v = {} then None else Some (var_ids definitions v))"
    by (auto simp: defs_ok_def)
qed


lemma foldE_prefix_invariant:
  assumes step: "\<And>p x r s. all = p @ x # r \<Longrightarrow> P p s \<Longrightarrow> \<exists>s'. f x s = Inr s' \<and> P (p @ [x]) s'"
  shows "all = pre @ xs \<Longrightarrow> P pre s \<Longrightarrow> \<exists>s'. foldE f xs s = Inr s' \<and> P all s'"
proof (induction xs arbitrary: pre s)
  case Nil
  then show ?case by simp
next
  case (Cons x xs)
  from step [OF Cons.prems] obtain s1 where s1: "f x s = Inr s1" "P (pre @ [x]) s1" by blast
  from Cons.prems(1) have "all = (pre @ [x]) @ xs" by simp
  from Cons.IH [OF this s1(2)] s1(1) show ?case by simp
qed

lemma in_keys_get: "k \<in> fst ` set d \<Longrightarrow> \<exists>v. map_of d k = Some v \<and> dict_get d k = Inr v"
proof -
  assume "k \<in> fst ` set d"
  then obtain v where "map_of d k = Some v" by (metis domD dom_map_of_conv_image_fst)
  then show ?thesis by (auto simp: dict_get_map_of)
qed

lemma kill_fold:
  assumes "set bs \<subseteq> fst ` set gen'"
  shows "set bs \<subseteq> fst ` set kill \<Longrightarrow>
    \<exists>kill'. foldE (kill_step d other gen') bs kill = Inr kill' \<and> map fst kill' = map fst kill
      \<and> (\<forall>B k'. map_of kill' B = Some k' \<longrightarrow>
            (\<exists>k. map_of kill B = Some k \<and>
                 (k' = k \<or> (k' = k \<union> other \<and> (\<exists>g. map_of gen' B = Some g \<and> d \<in> g)))))"
  using assms
proof (induction bs arbitrary: kill)
  case Nil
  then show ?case by simp
next
  case (Cons b bs)
  from Cons.prems obtain g where g: "map_of gen' b = Some g" "dict_get gen' b = Inr g"
    using in_keys_get [of b gen'] by auto
  from Cons.prems obtain k0 where k0: "map_of kill b = Some k0" "dict_get kill b = Inr k0"
    using in_keys_get [of b kill] by auto
  let ?kill1 = "if d \<in> g then AList.update b (k0 \<union> other) kill else kill"
  have step: "kill_step d other gen' b kill = Inr ?kill1"
    by (simp add: kill_step_def g k0)
  have keys1: "map fst ?kill1 = map fst kill"
    using Cons.prems by (auto simp: update_keys)
  have rel1: "\<exists>k. map_of kill B = Some k \<and>
                 (k1 = k \<or> (k1 = k \<union> other \<and> (\<exists>g. map_of gen' B = Some g \<and> d \<in> g)))"
    if "map_of ?kill1 B = Some k1" for B k1
    using that g k0 by (auto simp: update_conv' split: if_splits)
  have "fst ` set ?kill1 = fst ` set kill" using keys1 by (metis set_map)
  with Cons.prems have "set bs \<subseteq> fst ` set ?kill1" "set bs \<subseteq> fst ` set gen'" by auto
  from Cons.IH [OF this] obtain kill' where
    f: "foldE (kill_step d other gen') bs ?kill1 = Inr kill'"
    and keys': "map fst kill' = map fst ?kill1"
    and rel': "\<forall>B k'. map_of kill' B = Some k' \<longrightarrow>
            (\<exists>k. map_of ?kill1 B = Some k \<and>
                 (k' = k \<or> (k' = k \<union> other \<and> (\<exists>g. map_of gen' B = Some g \<and> d \<in> g))))"
    by blast
  have "\<exists>k. map_of kill B = Some k \<and>
                 (k' = k \<or> (k' = k \<union> other \<and> (\<exists>g. map_of gen' B = Some g \<and> d \<in> g)))"
    if "map_of kill' B = Some k'" for B k'
  proof -
    from rel' that obtain k1 where k1: "map_of ?kill1 B = Some k1"
      "k' = k1 \<or> (k' = k1 \<union> other \<and> (\<exists>g. map_of gen' B = Some g \<and> d \<in> g))" by blast
    from rel1 [OF k1(1)] obtain k where k: "map_of kill B = Some k"
      "k1 = k \<or> (k1 = k \<union> other \<and> (\<exists>g. map_of gen' B = Some g \<and> d \<in> g))" by blast
    from k1(2) k(2) have "k' = k \<or> (k' = k \<union> other \<and> (\<exists>g. map_of gen' B = Some g \<and> d \<in> g))"
      by auto
    with k(1) show ?thesis by blast
  qed
  with f keys' keys1 step show ?case by simp
qed


lemma gen_kill_step_ok:
  assumes dist: "distinct (map fst all)"
    and blk: "\<forall>(d, info) \<in> set all. block info \<in> set bids"
    and idx: "\<forall>(d, info) \<in> set all. \<exists>ds. map_of v2d (var info) = Some ds"
    and split: "all = p @ x # r"
    and ok: "gk_ok bids v2d p s"
  shows "\<exists>s'. gen_kill_step bids v2d x s = Inr s' \<and> gk_ok bids v2d (p @ [x]) s'"
proof -
  obtain d info where x: "x = (d, info)" by (cases x)
  obtain gen kill where s: "s = (gen, kill)" by (cases s)
  from ok s have kg: "map fst gen = bids" and kk: "map fst kill = bids"
    and gb: "\<forall>B g x. map_of gen B = Some g \<longrightarrow> x \<in> g \<longrightarrow> (\<exists>info. (x, info) \<in> set p \<and> block info = B)"
    and kb: "\<forall>B k x. map_of kill B = Some k \<longrightarrow> x \<in> k \<longrightarrow>
           (\<exists>d info ds. (d, info) \<in> set p \<and> block info = B \<and> x \<noteq> d
                \<and> map_of v2d (var info) = Some ds \<and> x \<in> ds)"
    by (auto simp: gk_ok_def)
  have mem: "(d, info) \<in> set all" using split x by simp
  have fresh: "d \<notin> fst ` set p" using dist split x by auto
  have sg: "fst ` set gen = set bids" using kg by (metis set_map)
  have sk: "fst ` set kill = set bids" using kk by (metis set_map)
  from mem blk have bK: "block info \<in> set bids" by auto
  with sg obtain g where g: "map_of gen (block info) = Some g" "dict_get gen (block info) = Inr g"
    using in_keys_get [of "block info" gen] by auto
  from mem idx obtain ds where ds: "map_of v2d (var info) = Some ds" by auto
  then have dsg: "dict_get v2d (var info) = Inr ds" by (simp add: dict_get_map_of)
  let ?gen' = "AList.update (block info) (insert d g) gen"
  have kg': "map fst ?gen' = bids" using kg bK by (auto simp: update_keys)
  then have "fst ` set ?gen' = set bids" by (metis set_map)
  with sk have "set bids \<subseteq> fst ` set ?gen'" "set bids \<subseteq> fst ` set kill" by auto
  from kill_fold [OF this, of d "ds - {d}"] obtain kill' where
    f: "foldE (kill_step d (ds - {d}) ?gen') bids kill = Inr kill'"
    and kk': "map fst kill' = map fst kill"
    and rel: "\<forall>B k'. map_of kill' B = Some k' \<longrightarrow>
            (\<exists>k. map_of kill B = Some k \<and>
                 (k' = k \<or> (k' = k \<union> (ds - {d}) \<and> (\<exists>g. map_of ?gen' B = Some g \<and> d \<in> g))))"
    by blast
  have res: "gen_kill_step bids v2d x s = Inr (?gen', kill')"
    by (simp add: gen_kill_step_def x s g dsg f Let_def)
  have gb': "\<exists>info'. (y, info') \<in> set (p @ [x]) \<and> block info' = B"
    if "map_of ?gen' B = Some g'" "y \<in> g'" for B g' y
  proof (cases "B = block info")
    case True
    with that have "y = d \<or> y \<in> g" by (auto simp: update_conv')
    then show ?thesis
    proof
      assume "y = d" then show ?thesis using True x by auto
    next
      assume "y \<in> g"
      with gb g(1) True obtain i where "(y, i) \<in> set p" "block i = B" by blast
      then show ?thesis by auto
    qed
  next
    case False
    with that have "map_of gen B = Some g'" by (auto simp: update_conv')
    with gb that(2) obtain i where "(y, i) \<in> set p" "block i = B" by blast
    then show ?thesis by auto
  qed
  have kb': "\<exists>d' info' ds'. (d', info') \<in> set (p @ [x]) \<and> block info' = B \<and> y \<noteq> d'
                \<and> map_of v2d (var info') = Some ds' \<and> y \<in> ds'"
    if "map_of kill' B = Some k'" "y \<in> k'" for B k' y
  proof -
    from rel that(1) obtain k where k: "map_of kill B = Some k"
      "k' = k \<or> (k' = k \<union> (ds - {d}) \<and> (\<exists>g. map_of ?gen' B = Some g \<and> d \<in> g))" by blast
    show ?thesis
    proof (cases "y \<in> k")
      case True
      with kb k(1) obtain d' i' ds' where "(d', i') \<in> set p" "block i' = B" "y \<noteq> d'"
        "map_of v2d (var i') = Some ds'" "y \<in> ds'" by blast
      then show ?thesis by auto
    next
      case False
      with k(2) that(2) have y: "y \<in> ds" "y \<noteq> d" and dg: "\<exists>g. map_of ?gen' B = Some g \<and> d \<in> g"
        by auto
      have "B = block info"
      proof (rule ccontr)
        assume "B \<noteq> block info"
        with dg obtain g0 where "map_of gen B = Some g0" "d \<in> g0" by (auto simp: update_conv')
        with gb obtain i where "(d, i) \<in> set p" by blast
        then have "d \<in> fst ` set p" by force
        with fresh show False by simp
      qed
      with y ds x show ?thesis by auto
    qed
  qed
  have "gk_ok bids v2d (p @ [x]) (?gen', kill')"
    unfolding gk_ok_def using kg' kk' kk gb' kb' by (simp del: set_append)
  with res show ?thesis by blast
qed


lemma compute_gen_kill_ok:
  assumes dist: "distinct (map fst definitions)"
    and blk: "\<forall>(d, info) \<in> set definitions. block info \<in> fst ` set blocks"
    and idx: "\<forall>(d, info) \<in> set definitions. \<exists>ds. map_of var_to_defs (var info) = Some ds"
  shows "\<exists>s'. compute_gen_kill blocks definitions var_to_defs = Inr s'
            \<and> gk_ok (map fst blocks) var_to_defs definitions s'"
proof -
  let ?K = "map fst blocks"
  let ?init = "(map (\<lambda>(bid, b). (bid, {})) blocks, map (\<lambda>(bid, b). (bid, {})) blocks) :: set_dict \<times> set_dict"
  have keys: "map fst (map (\<lambda>(bid, b). (bid, {}::string set)) blocks) = ?K"
    by (simp add: comp_def case_prod_unfold)
  have init: "gk_ok ?K var_to_defs [] ?init"
    unfolding gk_ok_def using keys by (auto dest: map_of_SomeD)
  have blk': "\<forall>(d, info) \<in> set definitions. block info \<in> set (map fst blocks)"
    using blk by simp
  have "\<exists>s'. foldE (gen_kill_step (map fst blocks) var_to_defs) definitions ?init = Inr s'
          \<and> gk_ok ?K var_to_defs definitions s'"
  proof (rule foldE_prefix_invariant [where pre = "[]" and P = "gk_ok ?K var_to_defs"])
    fix p x r s
    assume "definitions = p @ x # r" "gk_ok ?K var_to_defs p s"
    then show "\<exists>s'. gen_kill_step (map fst blocks) var_to_defs x s = Inr s'
            \<and> gk_ok ?K var_to_defs (p @ [x]) s'"
      by (rule gen_kill_step_ok [OF dist blk' idx])
  next
    show "definitions = [] @ definitions" by simp
  next
    show "gk_ok ?K var_to_defs [] ?init" by (rule init)
  qed
  then show ?thesis by (simp add: compute_gen_kill_def)
qed

text \<open>
  C1, amended. For every block dictionary, with the definitions and the variable index the
  definition finder computes from it, the gen/kill computation returns, gen and kill have
  the blocks' keys, and for every block \<open>B\<close> in which no two definitions define the same
  variable, \<open>gen[B]\<close> and \<open>kill[B]\<close> are disjoint.
\<close>

theorem gen_kill_disjoint:
  assumes fd: "find_definitions blocks = (definitions, var_to_defs)"
    and nodup: "\<forall>(d, i) \<in> set definitions. \<forall>(d', i') \<in> set definitions.
                  block i = B \<and> block i' = B \<and> var i = var i' \<longrightarrow> d = d'"
  shows "\<exists>gen kill. compute_gen_kill blocks definitions var_to_defs = Inr (gen, kill)
           \<and> map fst gen = map fst blocks \<and> map fst kill = map fst blocks
           \<and> (\<forall>g k. dict_get gen B = Inr g \<and> dict_get kill B = Inr k \<longrightarrow> g \<inter> k = {})"
proof -
  note fo = find_definitions_ok [OF fd]
  have idx: "\<forall>(d, info) \<in> set definitions. \<exists>ds. map_of var_to_defs (var info) = Some ds"
  proof (clarify)
    fix d info assume "(d, info) \<in> set definitions"
    then have "d \<in> var_ids definitions (var info)" by (auto simp: var_ids_def)
    then have "var_ids definitions (var info) \<noteq> {}" by auto
    with fo(3) show "\<exists>ds. map_of var_to_defs (var info) = Some ds" by simp
  qed
  from compute_gen_kill_ok [OF fo(1) fo(2) idx] obtain gen kill where
    res: "compute_gen_kill blocks definitions var_to_defs = Inr (gen, kill)"
    and ok: "gk_ok (map fst blocks) var_to_defs definitions (gen, kill)" by auto
  from ok have gb: "\<forall>B g x. map_of gen B = Some g \<longrightarrow> x \<in> g \<longrightarrow>
                      (\<exists>info. (x, info) \<in> set definitions \<and> block info = B)"
    and kb: "\<forall>B k x. map_of kill B = Some k \<longrightarrow> x \<in> k \<longrightarrow>
           (\<exists>d info ds. (d, info) \<in> set definitions \<and> block info = B \<and> x \<noteq> d
                \<and> map_of var_to_defs (var info) = Some ds \<and> x \<in> ds)"
    by (auto simp: gk_ok_def)
  have disj: "g \<inter> k = {}" if g: "dict_get gen B = Inr g" and k: "dict_get kill B = Inr k" for g k
  proof (rule ccontr)
    assume "g \<inter> k \<noteq> {}"
    then obtain x where xg: "x \<in> g" and xk: "x \<in> k" by auto
    from g have mg: "map_of gen B = Some g" by (auto simp: dict_get_map_of split: option.splits)
    from k have mk: "map_of kill B = Some k" by (auto simp: dict_get_map_of split: option.splits)
    from gb mg xg obtain ix where ix: "(x, ix) \<in> set definitions" "block ix = B" by blast
    from kb mk xk obtain d info ds where d: "(d, info) \<in> set definitions" "block info = B" "x \<noteq> d"
      "map_of var_to_defs (var info) = Some ds" "x \<in> ds" by blast
    from fo(3) d(4) have "ds = var_ids definitions (var info)" by (auto split: if_splits)
    with d(5) obtain i' where i': "(x, i') \<in> set definitions" "var i' = var info"
      by (auto simp: var_ids_def)
    from fo(1) ix(1) i'(1) have "i' = ix" by (meson eq_key_imp_eq_value)
    with i'(2) have "var ix = var info" by simp
    with nodup ix d(1,2) have "x = d" by blast
    with d(3) show False by simp
  qed
  have keys: "map fst gen = map fst blocks \<and> map fst kill = map fst blocks"
    using ok by (simp add: gk_ok_def)
  with res disj show ?thesis by blast
qed


text \<open>
  C1, as stated, fails: for the input \<open>x = 1;\<close>, \<open>x = 2;\<close> the single block \<open>B0\<close> holds
  two definitions of \<open>x\<close>; each is among the other definitions of the other one, so
  both are in \<open>gen[B0]\<close> and in \<open>kill[B0]\<close>.
\<close>

theorem gen_kill_overlap_counterexample:
  "(case find_definitions (create_basic_blocks [''x = 1;'', ''x = 2;''] (find_leaders [''x = 1;'', ''x = 2;'']))
    of (definitions, var_to_defs) \<Rightarrow>
      compute_gen_kill (create_basic_blocks [''x = 1;'', ''x = 2;''] (find_leaders [''x = 1;'', ''x = 2;'']))
        definitions var_to_defs)
   = Inr ([(''B0'', {''d1'', ''d2''})], [(''B0'', {''d1'', ''d2''})])
   \<and> {''d1'', ''d2''} \<inter> {''d1'', ''d2''} \<noteq> ({} :: string set)"
  by code_simp

theorem gen_kill_disjoint_witness:
  "find_definitions [(''B0'', \<lparr>code = [''x = 1;'', ''y = 2;''], start_line = 0, end_line = 1\<rparr>),
                     (''B1'', \<lparr>code = [''x = 3;''], start_line = 2, end_line = 2\<rparr>)]
     = ([(''d1'', \<lparr>var = ''x'', block = ''B0'', line = ''x = 1;''\<rparr>),
         (''d2'', \<lparr>var = ''y'', block = ''B0'', line = ''y = 2;''\<rparr>),
         (''d3'', \<lparr>var = ''x'', block = ''B1'', line = ''x = 3;''\<rparr>)],
        [(''x'', {''d1'', ''d3''}), (''y'', {''d2''})])
   \<and> compute_gen_kill [(''B0'', \<lparr>code = [''x = 1;'', ''y = 2;''], start_line = 0, end_line = 1\<rparr>),
                     (''B1'', \<lparr>code = [''x = 3;''], start_line = 2, end_line = 2\<rparr>)]
        [(''d1'', \<lparr>var = ''x'', block = ''B0'', line = ''x = 1;''\<rparr>),
         (''d2'', \<lparr>var = ''y'', block = ''B0'', line = ''y = 2;''\<rparr>),
         (''d3'', \<lparr>var = ''x'', block = ''B1'', line = ''x = 3;''\<rparr>)]
        [(''x'', {''d1'', ''d3''}), (''y'', {''d2''})]
     = Inr ([(''B0'', {''d1'', ''d2''}), (''B1'', {''d3''})], [(''B0'', {''d3''}), (''B1'', {''d1''})])
   \<and> {''d1'', ''d2''} \<inter> {''d3''} = ({} :: string set)"
proof -
  let ?B = "[(''B0'', \<lparr>code = [''x = 1;'', ''y = 2;''], start_line = 0, end_line = 1\<rparr>),
             (''B1'', \<lparr>code = [''x = 3;''], start_line = 2, end_line = 2\<rparr>)]"
  let ?D = "[(''d1'', \<lparr>var = ''x'', block = ''B0'', line = ''x = 1;''\<rparr>),
             (''d2'', \<lparr>var = ''y'', block = ''B0'', line = ''y = 2;''\<rparr>),
             (''d3'', \<lparr>var = ''x'', block = ''B1'', line = ''x = 3;''\<rparr>)]"
  let ?V = "[(''x'', {''d1'', ''d3''}), (''y'', {''d2''})]"
  let ?G = "[(''B0'', {''d1'', ''d2''}), (''B1'', {''d3''})]"
  let ?K = "[(''B0'', {''d3''}), (''B1'', {''d1''})]"
  have fd: "find_definitions ?B = (?D, ?V)" by code_simp
  have nodup: "\<forall>(d, i) \<in> set ?D. \<forall>(d', i') \<in> set ?D.
                  block i = ''B0'' \<and> block i' = ''B0'' \<and> var i = var i' \<longrightarrow> d = d'"
    by simp
  have ck: "compute_gen_kill ?B ?D ?V = Inr (?G, ?K)" by code_simp
  from gen_kill_disjoint [OF fd nodup] ck
  have "\<forall>g k. dict_get ?G ''B0'' = Inr g \<and> dict_get ?K ''B0'' = Inr k \<longrightarrow> g \<inter> k = {}"
    by simp
  then have "{''d1'', ''d2''} \<inter> {''d3''} = ({} :: string set)" by simp
  with fd ck show ?thesis by simp
qed

subsection \<open>The solver at its fixpoint\<close>

lemma dict_get_Some: "dict_get d k = Inr v \<Longrightarrow> map_of d k = Some v"
  by (auto simp: dict_get_map_of split: option.splits)

lemma rd_block_unchanged:
  assumes "rd_block predecessors gen kill bid (ins, outs, ch) = Inr (ins1, outs1, False)"
  shows "ch = False \<and> outs1 = outs \<and>
    (\<exists>N. ins1 = AList.update bid N ins \<and>
       (\<forall>X. rd_block predecessors gen kill bid (X, outs, False) = Inr (AList.update bid N X, outs, False)))"
proof -
  from assms obtain ps where ps: "dict_get predecessors bid = Inr ps"
    and r1: "bindE (foldE (\<lambda>p new_in. bindE (dict_get outs p) (\<lambda>out_p. Inr (new_in \<union> out_p))) ps {}) (\<lambda>new_in.
     bindE (dict_get outs bid) (\<lambda>old_out.
     bindE (dict_get gen bid) (\<lambda>g.
     bindE (dict_get kill bid) (\<lambda>k.
       let new_out = g \<union> (new_in - k) in
       Inr (AList.update bid new_in ins, AList.update bid new_out outs,
            ch \<or> new_out \<noteq> old_out))))) = Inr (ins1, outs1, False)"
    unfolding rd_block_def by (auto dest!: bindE_Inr)
  from r1 obtain N where N: "foldE (\<lambda>p new_in. bindE (dict_get outs p) (\<lambda>out_p. Inr (new_in \<union> out_p))) ps {} = Inr N"
    and r2: "bindE (dict_get outs bid) (\<lambda>old_out.
     bindE (dict_get gen bid) (\<lambda>g.
     bindE (dict_get kill bid) (\<lambda>k.
       let new_out = g \<union> (N - k) in
       Inr (AList.update bid N ins, AList.update bid new_out outs,
            ch \<or> new_out \<noteq> old_out)))) = Inr (ins1, outs1, False)"
    by (auto dest!: bindE_Inr)
  from r2 obtain old g k where old: "dict_get outs bid = Inr old" and g: "dict_get gen bid = Inr g"
    and k: "dict_get kill bid = Inr k"
    and r3: "(let new_out = g \<union> (N - k) in
       Inr (AList.update bid N ins, AList.update bid new_out outs,
            ch \<or> new_out \<noteq> old) :: error + set_dict \<times> set_dict \<times> bool) = Inr (ins1, outs1, False)"
    by (auto dest!: bindE_Inr)
  from r3 have ch: "ch = False" and eq: "g \<union> (N - k) = old"
    and i1: "ins1 = AList.update bid N ins" and o1: "outs1 = AList.update bid (g \<union> (N - k)) outs"
    by (auto simp: Let_def)
  have triv: "AList.update bid old outs = outs"
    by (rule update_triv) (rule dict_get_Some [OF old])
  have "rd_block predecessors gen kill bid (X, outs, False) = Inr (AList.update bid N X, outs, False)" for X
    by (simp add: rd_block_def ps N old g k eq triv Let_def)
  with ch i1 o1 eq triv show ?thesis by auto
qed

lemma rd_fold_unchanged:
  "foldE (rd_block predecessors gen kill) bids (ins, outs, ch) = Inr (ins', outs', False) \<Longrightarrow>
   ch = False \<and> outs' = outs \<and>
   (\<forall>b \<in> set bids. \<exists>N. map_of ins' b = Some N \<and>
      (\<forall>X. rd_block predecessors gen kill b (X, outs, False) = Inr (AList.update b N X, outs, False))) \<and>
   (\<forall>b. b \<notin> set bids \<longrightarrow> map_of ins' b = map_of ins b)"
proof (induction bids arbitrary: ins outs ch)
  case Nil
  then show ?case by simp
next
  case (Cons b bs)
  from Cons.prems obtain s1 where s1: "rd_block predecessors gen kill b (ins, outs, ch) = Inr s1"
    and rest: "foldE (rd_block predecessors gen kill) bs s1 = Inr (ins', outs', False)"
    by (auto dest!: bindE_Inr)
  obtain ins1 outs1 ch1 where s1eq: "s1 = (ins1, outs1, ch1)" by (cases s1)
  from Cons.IH [OF rest [unfolded s1eq]]
  have ch1: "ch1 = False" and o': "outs' = outs1"
    and st: "\<forall>b \<in> set bs. \<exists>N. map_of ins' b = Some N \<and>
      (\<forall>X. rd_block predecessors gen kill b (X, outs1, False) = Inr (AList.update b N X, outs1, False))"
    and fr: "\<forall>b. b \<notin> set bs \<longrightarrow> map_of ins' b = map_of ins1 b"
    by auto
  from rd_block_unchanged [OF s1 [unfolded s1eq ch1]]
  obtain N where ch: "ch = False" and o1: "outs1 = outs" and i1: "ins1 = AList.update b N ins"
    and sb: "\<forall>X. rd_block predecessors gen kill b (X, outs, False) = Inr (AList.update b N X, outs, False)"
    by auto
  have head: "\<exists>N. map_of ins' b = Some N \<and>
      (\<forall>X. rd_block predecessors gen kill b (X, outs, False) = Inr (AList.update b N X, outs, False))"
  proof (cases "b \<in> set bs")
    case True
    with st o1 show ?thesis by auto
  next
    case False
    with fr have "map_of ins' b = map_of ins1 b" by simp
    also have "\<dots> = Some N" by (simp add: i1 update_conv')
    finally show ?thesis using sb by blast
  qed
  have frame: "\<forall>c. c \<notin> set (b # bs) \<longrightarrow> map_of ins' c = map_of ins c"
    using fr i1 by (auto simp: update_conv')
  from ch o' o1 st head frame show ?case by auto
qed

lemma rd_fold_replay:
  "\<forall>b \<in> set bids. \<exists>N. map_of I b = Some N \<and>
      (\<forall>X. rd_block predecessors gen kill b (X, outs, False) = Inr (AList.update b N X, outs, False)) \<Longrightarrow>
   foldE (rd_block predecessors gen kill) bids (I, outs, False) = Inr (I, outs, False)"
proof (induction bids)
  case Nil
  show ?case by simp
next
  case (Cons b bs)
  from Cons.prems obtain N where N: "map_of I b = Some N"
    and sb: "rd_block predecessors gen kill b (I, outs, False) = Inr (AList.update b N I, outs, False)"
    by auto
  from N have "AList.update b N I = I" by (rule update_triv)
  with sb Cons show ?case by simp
qed

lemma rd_pass_fixpoint:
  assumes "rd_pass bids predecessors gen kill ins outs = Inr (ins', outs', False)"
  shows "rd_pass bids predecessors gen kill ins' outs' = Inr (ins', outs', False)"
proof -
  from rd_fold_unchanged [OF assms [unfolded rd_pass_def]]
  have "outs' = outs" and "\<forall>b \<in> set bids. \<exists>N. map_of ins' b = Some N \<and>
      (\<forall>X. rd_block predecessors gen kill b (X, outs, False) = Inr (AList.update b N X, outs, False))"
    by auto
  then show ?thesis unfolding rd_pass_def by (simp add: rd_fold_replay)
qed

lemma rd_loop_result:
  assumes "rd_loop bids predecessors gen kill n ins outs = Some r"
  shows "\<forall>n' ins' outs'. r = Inr (n', ins', outs') \<longrightarrow>
           (\<exists>ins0 outs0. rd_pass bids predecessors gen kill ins0 outs0 = Inr (ins', outs', False))"
proof (rule rd_loop.raw_induct [where P = "\<lambda>bids predecessors gen kill n ins outs r.
          \<forall>n' ins' outs'. r = Inr (n', ins', outs') \<longrightarrow>
           (\<exists>ins0 outs0. rd_pass bids predecessors gen kill ins0 outs0 = Inr (ins', outs', False))",
        OF _ assms])
  fix rl :: "string list \<Rightarrow> (string \<times> string list) list \<Rightarrow> set_dict \<Rightarrow> set_dict \<Rightarrow> nat
      \<Rightarrow> set_dict \<Rightarrow> set_dict \<Rightarrow> (error + nat \<times> set_dict \<times> set_dict) option"
  fix bs ps g k it i o1 y
  assume IH: "\<And>bs ps g k it i o1 y. rl bs ps g k it i o1 = Some y \<Longrightarrow>
          \<forall>n' ins' outs'. y = Inr (n', ins', outs') \<longrightarrow>
           (\<exists>ins0 outs0. rd_pass bs ps g k ins0 outs0 = Inr (ins', outs', False))"
    and body: "(case rd_pass bs ps g k i o1 of
        Inl e \<Rightarrow> Some (Inl e)
      | Inr (in_sets', out_sets', changed) \<Rightarrow>
          if changed then rl bs ps g k (it + 1) in_sets' out_sets'
          else Some (Inr (it + 1, in_sets', out_sets'))) = Some y"
  show "\<forall>n' ins' outs'. y = Inr (n', ins', outs') \<longrightarrow>
           (\<exists>ins0 outs0. rd_pass bs ps g k ins0 outs0 = Inr (ins', outs', False))"
  proof (cases "rd_pass bs ps g k i o1")
    case (Inl e)
    with body show ?thesis by auto
  next
    case (Inr s)
    obtain i1 o2 ch where s: "s = (i1, o2, ch)" by (cases s)
    show ?thesis
    proof (cases ch)
      case True
      with body Inr s have "rl bs ps g k (it + 1) i1 o2 = Some y" by simp
      then show ?thesis by (rule IH)
    next
      case False
      with body Inr s have "y = Inr (it + 1, i1, o2)" by simp
      with Inr s False show ?thesis by auto
    qed
  qed
qed

text \<open>
  C4. Whenever the solver returns \<open>in\<close> and \<open>out\<close> sets (its last pass, in block-id
  order, changed no \<open>out\<close> set), one more full pass started from the returned sets
  returns the very same \<open>in\<close> and \<open>out\<close> dictionaries and reports no change.
\<close>

theorem solver_idempotent_at_fixpoint:
  assumes "reaching_definitions_analysis blocks cfg gen kill = Some (Inr (in_sets, out_sets))"
  shows "\<exists>predecessors. get_predecessors cfg = Inr predecessors \<and>
           rd_pass (map fst blocks) predecessors gen kill in_sets out_sets = Inr (in_sets, out_sets, False)"
proof (cases "get_predecessors cfg")
  case (Inl e)
  with assms show ?thesis by (simp add: reaching_definitions_analysis_def)
next
  case (Inr predecessors)
  let ?init = "map (\<lambda>(bid, b). (bid, {})) blocks :: set_dict"
  from assms Inr obtain r where r: "rd_loop (map fst blocks) predecessors gen kill 0 ?init ?init = Some r"
    and m: "map_sum id (\<lambda>(iteration, in_sets, out_sets). (in_sets, out_sets)) r = Inr (in_sets, out_sets)"
    by (auto simp: reaching_definitions_analysis_def)
  from m obtain n where "r = Inr (n, in_sets, out_sets)" by (cases r) auto
  with rd_loop_result [OF r] obtain ins0 outs0 where
    "rd_pass (map fst blocks) predecessors gen kill ins0 outs0 = Inr (in_sets, out_sets, False)" by blast
  then have "rd_pass (map fst blocks) predecessors gen kill in_sets out_sets = Inr (in_sets, out_sets, False)"
    by (rule rd_pass_fixpoint)
  with Inr show ?thesis by blast
qed


theorem solver_idempotent_at_fixpoint_witness:
  "reaching_definitions_analysis
     [(''B0'', \<lparr>code = [''if (x > 0)''], start_line = 0, end_line = 0\<rparr>),
      (''B1'', \<lparr>code = [''y = 1;''], start_line = 1, end_line = 1\<rparr>),
      (''B2'', \<lparr>code = [''else {'', ''y = 2;'', ''}''], start_line = 2, end_line = 4\<rparr>)]
     [(''B0'', [''B1'', ''B2'']), (''B1'', [''B2'']), (''B2'', [])]
     [(''B0'', {}), (''B1'', {''d1''}), (''B2'', {''d2''})]
     [(''B0'', {}), (''B1'', {''d2''}), (''B2'', {''d1''})]
   = Some (Inr ([(''B0'', {}), (''B1'', {}), (''B2'', {''d1''})],
                [(''B0'', {}), (''B1'', {''d1''}), (''B2'', {''d2''})]))
   \<and> get_predecessors [(''B0'', [''B1'', ''B2'']), (''B1'', [''B2'']), (''B2'', [])]
       = Inr [(''B0'', []), (''B1'', [''B0'']), (''B2'', [''B0'', ''B1''])]
   \<and> rd_pass [''B0'', ''B1'', ''B2'']
        [(''B0'', []), (''B1'', [''B0'']), (''B2'', [''B0'', ''B1''])]
        [(''B0'', {}), (''B1'', {''d1''}), (''B2'', {''d2''})]
        [(''B0'', {}), (''B1'', {''d2''}), (''B2'', {''d1''})]
        [(''B0'', {}), (''B1'', {}), (''B2'', {''d1''})]
        [(''B0'', {}), (''B1'', {''d1''}), (''B2'', {''d2''})]
       = Inr ([(''B0'', {}), (''B1'', {}), (''B2'', {''d1''})],
              [(''B0'', {}), (''B1'', {''d1''}), (''B2'', {''d2''})], False)"
proof -
  let ?B = "[(''B0'', \<lparr>code = [''if (x > 0)''], start_line = 0, end_line = 0\<rparr>),
      (''B1'', \<lparr>code = [''y = 1;''], start_line = 1, end_line = 1\<rparr>),
      (''B2'', \<lparr>code = [''else {'', ''y = 2;'', ''}''], start_line = 2, end_line = 4\<rparr>)]"
  let ?C = "[(''B0'', [''B1'', ''B2'']), (''B1'', [''B2'']), (''B2'', [])]"
  let ?G = "[(''B0'', {}), (''B1'', {''d1''}), (''B2'', {''d2''})] :: set_dict"
  let ?K = "[(''B0'', {}), (''B1'', {''d2''}), (''B2'', {''d1''})] :: set_dict"
  let ?I = "[(''B0'', {}), (''B1'', {}), (''B2'', {''d1''})] :: set_dict"
  let ?O = "[(''B0'', {}), (''B1'', {''d1''}), (''B2'', {''d2''})] :: set_dict"
  have run: "reaching_definitions_analysis ?B ?C ?G ?K = Some (Inr (?I, ?O))" by code_simp
  have pr: "get_predecessors ?C = Inr [(''B0'', []), (''B1'', [''B0'']), (''B2'', [''B0'', ''B1''])]"
    by code_simp
  from solver_idempotent_at_fixpoint [OF run] pr
  have "rd_pass (map fst ?B) [(''B0'', []), (''B1'', [''B0'']), (''B2'', [''B0'', ''B1''])] ?G ?K ?I ?O
          = Inr (?I, ?O, False)" by simp
  with run pr show ?thesis by simp
qed

subsection \<open>Termination of the solver\<close>

lemma new_in_fold:
  "foldE (\<lambda>p new_in. bindE (dict_get outs p) (\<lambda>out_p. Inr (new_in \<union> out_p))) ps A = Inr N \<Longrightarrow>
   N = A \<union> \<Union> {s. \<exists>p \<in> set ps. map_of outs p = Some s}"
proof (induction ps arbitrary: A)
  case Nil
  then show ?case by simp
next
  case (Cons p ps)
  from Cons.prems obtain s where s: "dict_get outs p = Inr s"
    and rest: "foldE (\<lambda>p new_in. bindE (dict_get outs p) (\<lambda>out_p. Inr (new_in \<union> out_p))) ps (A \<union> s) = Inr N"
    by (auto dest!: bindE_Inr)
  from s have ms: "map_of outs p = Some s" by (rule dict_get_Some)
  from Cons.IH [OF rest] have "N = (A \<union> s) \<union> \<Union> {s. \<exists>p \<in> set ps. map_of outs p = Some s}" .
  also have "\<dots> = A \<union> \<Union> {s. \<exists>q \<in> set (p # ps). map_of outs q = Some s}"
    using ms by auto
  finally show ?case .
qed

lemma rd_block_result:
  assumes "rd_block predecessors gen kill b (ins, outs, ch) = Inr (ins1, outs1, ch1)"
  shows "\<exists>old. map_of outs b = Some old
           \<and> outs1 = AList.update b (out_of predecessors gen kill outs b) outs
           \<and> ch1 = (ch \<or> out_of predecessors gen kill outs b \<noteq> old)"
proof -
  from assms obtain ps where ps: "dict_get predecessors b = Inr ps"
    and r1: "bindE (foldE (\<lambda>p new_in. bindE (dict_get outs p) (\<lambda>out_p. Inr (new_in \<union> out_p))) ps {}) (\<lambda>new_in.
     bindE (dict_get outs b) (\<lambda>old_out.
     bindE (dict_get gen b) (\<lambda>g.
     bindE (dict_get kill b) (\<lambda>k.
       let new_out = g \<union> (new_in - k) in
       Inr (AList.update b new_in ins, AList.update b new_out outs,
            ch \<or> new_out \<noteq> old_out))))) = Inr (ins1, outs1, ch1)"
    unfolding rd_block_def by (auto dest!: bindE_Inr)
  from r1 obtain N where N: "foldE (\<lambda>p new_in. bindE (dict_get outs p) (\<lambda>out_p. Inr (new_in \<union> out_p))) ps {} = Inr N"
    and r2: "bindE (dict_get outs b) (\<lambda>old_out.
     bindE (dict_get gen b) (\<lambda>g.
     bindE (dict_get kill b) (\<lambda>k.
       let new_out = g \<union> (N - k) in
       Inr (AList.update b N ins, AList.update b new_out outs,
            ch \<or> new_out \<noteq> old_out)))) = Inr (ins1, outs1, ch1)"
    by (auto dest!: bindE_Inr)
  from r2 obtain old g k where old: "dict_get outs b = Inr old" and g: "dict_get gen b = Inr g"
    and k: "dict_get kill b = Inr k"
    and r3: "(let new_out = g \<union> (N - k) in
       Inr (AList.update b N ins, AList.update b new_out outs,
            ch \<or> new_out \<noteq> old) :: error + set_dict \<times> set_dict \<times> bool) = Inr (ins1, outs1, ch1)"
    by (auto dest!: bindE_Inr)
  have "N = in_of predecessors outs b"
    using new_in_fold [OF N] dict_get_Some [OF ps] by (auto simp: in_of_def)
  then have "g \<union> (N - k) = out_of predecessors gen kill outs b"
    using dict_get_Some [OF g] dict_get_Some [OF k] by (simp add: out_of_def)
  with r3 dict_get_Some [OF old] show ?thesis by (auto simp: Let_def)
qed

lemma out_of_mono:
  assumes "\<forall>b s. map_of outs b = Some s \<longrightarrow> (\<exists>s'. map_of outs' b = Some s' \<and> s \<subseteq> s')"
  shows "out_of predecessors gen kill outs b \<subseteq> out_of predecessors gen kill outs' b"
proof -
  have "in_of predecessors outs b \<subseteq> in_of predecessors outs' b"
    unfolding in_of_def using assms by fastforce
  then show ?thesis unfolding out_of_def by auto
qed

lemma out_of_universe:
  assumes "\<forall>b s. map_of outs b = Some s \<longrightarrow> s \<subseteq> gen_universe gen"
  shows "out_of predecessors gen kill outs b \<subseteq> gen_universe gen"
proof -
  have "in_of predecessors outs b \<subseteq> gen_universe gen"
    unfolding in_of_def using assms by blast
  moreover have "(case map_of gen b of None \<Rightarrow> {} | Some g \<Rightarrow> g) \<subseteq> gen_universe gen"
    by (auto simp: gen_universe_def split: option.splits dest!: map_of_SomeD)
  ultimately show ?thesis unfolding out_of_def by auto
qed

lemma rd_inv_step:
  assumes inv: "rd_inv predecessors gen kill outs" and old: "map_of outs b = Some old"
  shows "rd_inv predecessors gen kill (AList.update b (out_of predecessors gen kill outs b) outs)"
proof -
  let ?t = "out_of predecessors gen kill outs b"
  let ?outs' = "AList.update b ?t outs"
  from inv have sub: "\<forall>b s. map_of outs b = Some s \<longrightarrow> s \<subseteq> gen_universe gen"
    by (simp add: rd_inv_def)
  have tU: "?t \<subseteq> gen_universe gen" by (rule out_of_universe [OF sub])
  have le: "\<forall>c s. map_of outs c = Some s \<longrightarrow> (\<exists>s'. map_of ?outs' c = Some s' \<and> s \<subseteq> s')"
    using inv old by (auto simp: update_conv' rd_inv_def)
  have mono: "out_of predecessors gen kill outs c \<subseteq> out_of predecessors gen kill ?outs' c" for c
    by (rule out_of_mono [OF le])
  show ?thesis
    unfolding rd_inv_def
  proof (intro allI impI)
    fix c s assume c: "map_of ?outs' c = Some s"
    show "s \<subseteq> out_of predecessors gen kill ?outs' c \<and> s \<subseteq> gen_universe gen"
    proof (cases "c = b")
      case True
      with c have "s = ?t" by (simp add: update_conv')
      with mono [of b] tU True show ?thesis by simp
    next
      case False
      with c have "map_of outs c = Some s" by (simp add: update_conv')
      with inv have "s \<subseteq> out_of predecessors gen kill outs c" "s \<subseteq> gen_universe gen"
        by (auto simp: rd_inv_def)
      with mono [of c] show ?thesis by auto
    qed
  qed
qed

lemma rd_measure_step:
  assumes fin: "finite (gen_universe gen)"
  shows "map_of outs b = Some old \<Longrightarrow> old \<subseteq> t \<Longrightarrow> t \<subseteq> gen_universe gen \<Longrightarrow>
    rd_measure gen (AList.update b t outs) \<le> rd_measure gen outs
    \<and> (t \<noteq> old \<longrightarrow> rd_measure gen (AList.update b t outs) < rd_measure gen outs)"
proof (induction outs)
  case Nil
  then show ?case by simp
next
  case (Cons p outs)
  obtain c s where p: "p = (c, s)" by (cases p)
  show ?case
  proof (cases "c = b")
    case True
    with Cons.prems p have s: "s = old" by simp
    have le: "card (gen_universe gen - t) \<le> card (gen_universe gen - old)"
      using Cons.prems(2) fin by (intro card_mono) auto
    have lt: "card (gen_universe gen - t) < card (gen_universe gen - old)" if "t \<noteq> old"
    proof -
      from that Cons.prems(2,3) have "gen_universe gen - t \<subset> gen_universe gen - old" by auto
      then show ?thesis using fin by (intro psubset_card_mono) auto
    qed
    from le lt show ?thesis by (auto simp: rd_measure_def p True s)
  next
    case False
    with Cons.prems p have "map_of outs b = Some old" by simp
    from Cons.IH [OF this Cons.prems(2,3)] False show ?thesis
      by (auto simp: rd_measure_def p)
  qed
qed


lemma rd_fold_progress:
  assumes fin: "finite (gen_universe gen)"
  shows "foldE (rd_block predecessors gen kill) bids (ins, outs, ch) = Inr (ins', outs', ch') \<Longrightarrow>
    rd_inv predecessors gen kill outs \<Longrightarrow>
    rd_inv predecessors gen kill outs' \<and> rd_measure gen outs' \<le> rd_measure gen outs
    \<and> (ch' \<longrightarrow> ch \<or> rd_measure gen outs' < rd_measure gen outs)"
proof (induction bids arbitrary: ins outs ch)
  case Nil
  then show ?case by simp
next
  case (Cons b bs)
  from Cons.prems(1) obtain s1 where s1: "rd_block predecessors gen kill b (ins, outs, ch) = Inr s1"
    and rest: "foldE (rd_block predecessors gen kill) bs s1 = Inr (ins', outs', ch')"
    by (auto dest!: bindE_Inr)
  obtain ins1 outs1 ch1 where s1eq: "s1 = (ins1, outs1, ch1)" by (cases s1)
  let ?t = "out_of predecessors gen kill outs b"
  from rd_block_result [OF s1 [unfolded s1eq]] obtain old where old: "map_of outs b = Some old"
    and o1: "outs1 = AList.update b ?t outs" and c1: "ch1 = (ch \<or> ?t \<noteq> old)" by blast
  from Cons.prems(2) old have sub: "old \<subseteq> ?t" by (simp add: rd_inv_def)
  from Cons.prems(2) have "\<forall>b s. map_of outs b = Some s \<longrightarrow> s \<subseteq> gen_universe gen"
    by (simp add: rd_inv_def)
  then have tU: "?t \<subseteq> gen_universe gen" by (rule out_of_universe)
  have inv1: "rd_inv predecessors gen kill outs1"
    unfolding o1 by (rule rd_inv_step [OF Cons.prems(2) old])
  from rd_measure_step [OF fin old sub tU]
  have m1: "rd_measure gen outs1 \<le> rd_measure gen outs"
    and m1s: "?t \<noteq> old \<longrightarrow> rd_measure gen outs1 < rd_measure gen outs"
    unfolding o1 by auto
  from Cons.IH [OF rest [unfolded s1eq] inv1]
  have inv': "rd_inv predecessors gen kill outs'"
    and m2: "rd_measure gen outs' \<le> rd_measure gen outs1"
    and m2s: "ch' \<longrightarrow> ch1 \<or> rd_measure gen outs' < rd_measure gen outs1" by auto
  from m1 m2 have le: "rd_measure gen outs' \<le> rd_measure gen outs" by simp
  have "ch \<or> rd_measure gen outs' < rd_measure gen outs" if ch'
  proof -
    from m2s that have "ch1 \<or> rd_measure gen outs' < rd_measure gen outs1" by simp
    then show ?thesis using c1 m1 m1s m2 by auto
  qed
  with inv' le show ?case by simp
qed

lemma rd_loop_terminates:
  assumes fin: "finite (gen_universe gen)"
  shows "rd_inv predecessors gen kill outs \<Longrightarrow>
    \<exists>r. rd_loop bids predecessors gen kill n ins outs = Some r
       \<and> (\<forall>n' ins' outs'. r = Inr (n', ins', outs') \<longrightarrow> n' \<le> n + rd_measure gen outs + 1)"
proof (induction "rd_measure gen outs" arbitrary: outs ins n rule: less_induct)
  case less
  show ?case
  proof (cases "rd_pass bids predecessors gen kill ins outs")
    case (Inl e)
    then show ?thesis by (subst rd_loop.simps) simp
  next
    case (Inr s)
    obtain ins1 outs1 ch where s: "s = (ins1, outs1, ch)" by (cases s)
    from Inr s have f: "foldE (rd_block predecessors gen kill) bids (ins, outs, False) = Inr (ins1, outs1, ch)"
      by (simp add: rd_pass_def)
    from rd_fold_progress [OF fin f less.prems]
    have inv1: "rd_inv predecessors gen kill outs1"
      and dec: "ch \<longrightarrow> rd_measure gen outs1 < rd_measure gen outs" by auto
    show ?thesis
    proof (cases ch)
      case True
      with dec have lt: "rd_measure gen outs1 < rd_measure gen outs" by simp
      from less.hyps [OF lt inv1, of "n + 1" ins1] obtain r where
        r: "rd_loop bids predecessors gen kill (n + 1) ins1 outs1 = Some r"
        and b: "\<forall>n' ins' outs'. r = Inr (n', ins', outs') \<longrightarrow> n' \<le> n + 1 + rd_measure gen outs1 + 1"
        by blast
      have "rd_loop bids predecessors gen kill n ins outs = Some r"
        using r by (subst rd_loop.simps) (simp add: Inr s True)
      moreover have "\<forall>n' ins' outs'. r = Inr (n', ins', outs') \<longrightarrow> n' \<le> n + rd_measure gen outs + 1"
        using b lt by auto
      ultimately show ?thesis by blast
    next
      case False
      have "rd_loop bids predecessors gen kill n ins outs = Some (Inr (n + 1, ins1, outs1))"
        by (subst rd_loop.simps) (simp add: Inr s False)
      then show ?thesis by auto
    qed
  qed
qed

lemma rd_inv_init: "rd_inv predecessors gen kill (map (\<lambda>(bid, b). (bid, {})) blocks)"
  by (auto simp: rd_inv_def dest!: map_of_SomeD)

lemma rd_measure_init:
  "rd_measure gen (map (\<lambda>(bid, b). (bid, {})) blocks) = length blocks * card (gen_universe gen)"
  by (induction blocks) (auto simp: rd_measure_def)

lemma gen_universe_finite: "\<forall>(b, g) \<in> set gen. finite g \<Longrightarrow> finite (gen_universe gen)"
  by (auto simp: gen_universe_def)

text \<open>
  C5. For all blocks, graph, gen and kill dictionaries (the gen sets finite, as every
  Python set is), the solver terminates: started from \<open>out[B] = {}\<close> for all blocks, the
  repeat-until-no-change loop returns after finitely many passes. The \<open>out\<close> sets only
  grow from pass to pass, because the transfer function is monotone, and they stay inside
  the finite set of all generated definition ids; so the number of passes is at most the
  number of blocks times the number of generated ids, plus one.
\<close>

theorem solver_terminates:
  assumes "\<forall>(b, g) \<in> set gen. finite g"
  shows "(\<exists>r. reaching_definitions_analysis blocks cfg gen kill = Some r)
    \<and> (\<forall>predecessors. \<exists>r.
          rd_loop (map fst blocks) predecessors gen kill 0
            (map (\<lambda>(bid, b). (bid, {})) blocks) (map (\<lambda>(bid, b). (bid, {})) blocks) = Some r
          \<and> (\<forall>passes in_sets out_sets. r = Inr (passes, in_sets, out_sets) \<longrightarrow>
                passes \<le> length blocks * card (\<Union> (snd ` set gen)) + 1))"
proof -
  let ?init = "map (\<lambda>(bid, b). (bid, {})) blocks :: set_dict"
  have fin: "finite (gen_universe gen)" by (rule gen_universe_finite [OF assms])
  have loop: "\<exists>r. rd_loop (map fst blocks) predecessors gen kill 0 ?init ?init = Some r
          \<and> (\<forall>passes in_sets out_sets. r = Inr (passes, in_sets, out_sets) \<longrightarrow>
                passes \<le> length blocks * card (\<Union> (snd ` set gen)) + 1)" for predecessors
    using rd_loop_terminates [where bids = "map fst blocks" and n = 0 and ins = ?init
        and predecessors = predecessors and kill = kill, OF fin rd_inv_init]
    by (simp add: rd_measure_init gen_universe_def)
  have "\<exists>r. reaching_definitions_analysis blocks cfg gen kill = Some r"
  proof (cases "get_predecessors cfg")
    case (Inl e)
    then show ?thesis by (simp add: reaching_definitions_analysis_def)
  next
    case (Inr predecessors)
    from loop [of predecessors] obtain r where
      "rd_loop (map fst blocks) predecessors gen kill 0 ?init ?init = Some r" by blast
    with Inr show ?thesis by (simp add: reaching_definitions_analysis_def)
  qed
  with loop show ?thesis by blast
qed


theorem solver_terminates_witness:
  "\<exists>r. reaching_definitions_analysis
     [(''B0'', \<lparr>code = [''x = 1;'', ''while (x)''], start_line = 0, end_line = 1\<rparr>),
      (''B1'', \<lparr>code = [''x = 2;''], start_line = 2, end_line = 2\<rparr>)]
     [(''B0'', [''B1'']), (''B1'', [''B0''])]
     [(''B0'', {''d1''}), (''B1'', {''d2''})]
     [(''B0'', {''d2''}), (''B1'', {''d1''})] = Some r"
proof -
  have fin: "\<forall>(b, g) \<in> set [(''B0'', {''d1''}), (''B1'', {''d2''})]. finite g" by simp
  from solver_terminates [OF fin] show ?thesis by blast
qed

subsection \<open>Normal return of the solver\<close>

lemma new_in_succeeds:
  "\<forall>p \<in> set ps. p \<in> fst ` set outs \<Longrightarrow>
   \<exists>N. foldE (\<lambda>p new_in. bindE (dict_get outs p) (\<lambda>out_p. Inr (new_in \<union> out_p))) ps A = Inr N"
proof (induction ps arbitrary: A)
  case Nil
  show ?case by simp
next
  case (Cons p ps)
  from Cons.prems obtain s where "dict_get outs p = Inr s"
    using in_keys_get [of p outs] by auto
  with Cons show ?case by simp
qed

lemma rd_block_succeeds:
  assumes ps: "map_of predecessors b = Some ps" and sub: "\<forall>p \<in> set ps. p \<in> fst ` set outs"
    and bo: "b \<in> fst ` set outs" and bg: "b \<in> fst ` set gen" and bk: "b \<in> fst ` set kill"
  shows "\<exists>ins1 outs1 ch1. rd_block predecessors gen kill b (ins, outs, ch) = Inr (ins1, outs1, ch1)
           \<and> map fst outs1 = map fst outs"
proof -
  from ps have p: "dict_get predecessors b = Inr ps" by (simp add: dict_get_map_of)
  from new_in_succeeds [OF sub] obtain N where
    N: "foldE (\<lambda>p new_in. bindE (dict_get outs p) (\<lambda>out_p. Inr (new_in \<union> out_p))) ps {} = Inr N"
    by blast
  from bo obtain old where old: "dict_get outs b = Inr old" using in_keys_get [of b outs] by auto
  from bg obtain g where g: "dict_get gen b = Inr g" using in_keys_get [of b gen] by auto
  from bk obtain k where k: "dict_get kill b = Inr k" using in_keys_get [of b kill] by auto
  have "map fst (AList.update b (g \<union> (N - k)) outs) = map fst outs"
    using bo by (auto simp: update_keys)
  then show ?thesis by (simp add: rd_block_def p N old g k Let_def)
qed

lemma rd_fold_succeeds:
  "rd_wf bids predecessors gen kill outs \<Longrightarrow> set bs \<subseteq> set bids \<Longrightarrow>
   \<exists>ins' outs' ch'. foldE (rd_block predecessors gen kill) bs (ins, outs, ch) = Inr (ins', outs', ch')
      \<and> map fst outs' = map fst outs"
proof (induction bs arbitrary: ins outs ch)
  case Nil
  show ?case by simp
next
  case (Cons b bs)
  from Cons.prems have b: "b \<in> set bids" by simp
  with Cons.prems(1) obtain ps where ps: "map_of predecessors b = Some ps"
    and sub: "\<forall>p \<in> set ps. p \<in> fst ` set outs"
    and bo: "b \<in> fst ` set outs" and bg: "b \<in> fst ` set gen" and bk: "b \<in> fst ` set kill"
    unfolding rd_wf_def by blast
  from rd_block_succeeds [OF ps sub bo bg bk, of ins ch] obtain ins1 outs1 ch1 where
    s: "rd_block predecessors gen kill b (ins, outs, ch) = Inr (ins1, outs1, ch1)"
    and k1: "map fst outs1 = map fst outs" by blast
  from k1 have "fst ` set outs1 = fst ` set outs" by (metis set_map)
  with Cons.prems(1) have wf1: "rd_wf bids predecessors gen kill outs1" by (simp add: rd_wf_def)
  from Cons.prems(2) have "set bs \<subseteq> set bids" by simp
  from Cons.IH [OF wf1 this, of ins1 ch1] s k1 show ?case by auto
qed


lemma rd_loop_returns:
  assumes fin: "finite (gen_universe gen)"
  shows "rd_inv predecessors gen kill outs \<Longrightarrow> rd_wf bids predecessors gen kill outs \<Longrightarrow>
    \<exists>n' ins' outs'. rd_loop bids predecessors gen kill n ins outs = Some (Inr (n', ins', outs'))"
proof (induction "rd_measure gen outs" arbitrary: outs ins n rule: less_induct)
  case less
  from rd_fold_succeeds [OF less.prems(2) subset_refl, of ins False] obtain ins1 outs1 ch where
    f: "foldE (rd_block predecessors gen kill) bids (ins, outs, False) = Inr (ins1, outs1, ch)"
    and k1: "map fst outs1 = map fst outs" by blast
  then have pass: "rd_pass bids predecessors gen kill ins outs = Inr (ins1, outs1, ch)"
    by (simp add: rd_pass_def)
  from rd_fold_progress [OF fin f less.prems(1)]
  have inv1: "rd_inv predecessors gen kill outs1"
    and dec: "ch \<longrightarrow> rd_measure gen outs1 < rd_measure gen outs" by auto
  from k1 have "fst ` set outs1 = fst ` set outs" by (metis set_map)
  with less.prems(2) have wf1: "rd_wf bids predecessors gen kill outs1" by (simp add: rd_wf_def)
  show ?case
  proof (cases ch)
    case True
    with dec have lt: "rd_measure gen outs1 < rd_measure gen outs" by simp
    from less.hyps [OF lt inv1 wf1, of "n + 1" ins1] obtain n' ins' outs' where
      "rd_loop bids predecessors gen kill (n + 1) ins1 outs1 = Some (Inr (n', ins', outs'))" by blast
    then have "rd_loop bids predecessors gen kill n ins outs = Some (Inr (n', ins', outs'))"
      by (subst rd_loop.simps) (simp add: pass True)
    then show ?thesis by blast
  next
    case False
    have "rd_loop bids predecessors gen kill n ins outs = Some (Inr (n + 1, ins1, outs1))"
      by (subst rd_loop.simps) (simp add: pass False)
    then show ?thesis by blast
  qed
qed

lemma pred_inner_fold:
  "set edges \<subseteq> fst ` set ps \<Longrightarrow> \<forall>(b, l) \<in> set ps. set l \<subseteq> K \<Longrightarrow> node \<in> K \<Longrightarrow>
   \<exists>ps'. foldE (\<lambda>edge ps. bindE (dict_get ps edge) (\<lambda>l. Inr (AList.update edge (l @ [node]) ps)))
            edges ps = Inr ps'
      \<and> map fst ps' = map fst ps \<and> (\<forall>(b, l) \<in> set ps'. set l \<subseteq> K)"
proof (induction edges arbitrary: ps)
  case Nil
  then show ?case by simp
next
  case (Cons e es)
  from Cons.prems(1) obtain l where l: "map_of ps e = Some l" "dict_get ps e = Inr l"
    using in_keys_get [of e ps] by auto
  let ?ps1 = "AList.update e (l @ [node]) ps"
  have k1: "map fst ?ps1 = map fst ps" using Cons.prems(1) by (auto simp: update_keys)
  then have s1: "fst ` set ?ps1 = fst ` set ps" by (metis set_map)
  from l(1) have "(e, l) \<in> set ps" by (rule map_of_SomeD)
  with Cons.prems(2) have "set l \<subseteq> K" by auto
  with Cons.prems(3) have "set (l @ [node]) \<subseteq> K" by simp
  moreover have "set ?ps1 \<subseteq> insert (e, l @ [node]) (set ps)"
    by (induction ps) auto
  ultimately have b1: "\<forall>(b, l) \<in> set ?ps1. set l \<subseteq> K" using Cons.prems(2) by blast
  from Cons.prems(1) s1 have "set es \<subseteq> fst ` set ?ps1" by simp
  from Cons.IH [OF this b1 Cons.prems(3)] l(2) k1 show ?case by auto
qed

lemma get_predecessors_succeeds:
  assumes "\<forall>(b, es) \<in> set cfg. set es \<subseteq> fst ` set cfg"
  shows "\<exists>ps. get_predecessors cfg = Inr ps \<and> map fst ps = map fst cfg
          \<and> (\<forall>(b, l) \<in> set ps. set l \<subseteq> fst ` set cfg)"
proof -
  let ?K = "fst ` set cfg"
  let ?f = "\<lambda>(node, edges) predecessors.
              foldE (\<lambda>edge ps. bindE (dict_get ps edge) (\<lambda>l. Inr (AList.update edge (l @ [node]) ps)))
                    edges predecessors"
  have gen: "set xs \<subseteq> set cfg \<Longrightarrow> map fst ps = map fst cfg \<Longrightarrow> \<forall>(b, l) \<in> set ps. set l \<subseteq> ?K \<Longrightarrow>
      \<exists>ps'. foldE ?f xs ps = Inr ps' \<and> map fst ps' = map fst cfg \<and> (\<forall>(b, l) \<in> set ps'. set l \<subseteq> ?K)"
    for xs ps
  proof (induction xs arbitrary: ps)
    case Nil
    then show ?case by simp
  next
    case (Cons x xs)
    obtain node edges where x: "x = (node, edges)" by (cases x)
    with Cons.prems(1) have mem: "(node, edges) \<in> set cfg" by simp
    then have node: "node \<in> ?K" by force
    from mem assms have "set edges \<subseteq> ?K" by auto
    moreover from Cons.prems(2) have "fst ` set ps = ?K" by (metis set_map)
    ultimately have "set edges \<subseteq> fst ` set ps" by simp
    from pred_inner_fold [OF this Cons.prems(3) node] obtain ps1 where
      s: "?f x ps = Inr ps1" and k1: "map fst ps1 = map fst ps"
      and b1: "\<forall>(b, l) \<in> set ps1. set l \<subseteq> ?K" unfolding x by auto
    from Cons.prems(1) have "set xs \<subseteq> set cfg" by simp
    from Cons.IH [OF this _ b1] k1 Cons.prems(2) s show ?case by simp
  qed
  have "map fst (map (\<lambda>(bid, es). (bid, [])) cfg) = map fst cfg"
    by (simp add: comp_def case_prod_unfold)
  moreover have "\<forall>(b, l) \<in> set (map (\<lambda>(bid, es). (bid, [] :: string list)) cfg). set l \<subseteq> ?K"
    by auto
  ultimately show ?thesis
    using gen [OF subset_refl, of "map (\<lambda>(bid, es). (bid, [])) cfg"]
    by (simp add: get_predecessors_def)
qed


lemma solver_returns:
  assumes fin: "\<forall>(b, g) \<in> set gen. finite g"
    and edges: "\<forall>(b, es) \<in> set cfg. set es \<subseteq> fst ` set cfg"
    and kc: "map fst cfg = map fst blocks"
    and kg: "map fst gen = map fst blocks" and kk: "map fst kill = map fst blocks"
  shows "\<exists>in_sets out_sets. reaching_definitions_analysis blocks cfg gen kill = Some (Inr (in_sets, out_sets))"
proof -
  let ?init = "map (\<lambda>(bid, b). (bid, {})) blocks :: set_dict"
  let ?bids = "map fst blocks"
  from get_predecessors_succeeds [OF edges] obtain ps where ps: "get_predecessors cfg = Inr ps"
    and kp: "map fst ps = map fst cfg" and bp: "\<forall>(b, l) \<in> set ps. set l \<subseteq> fst ` set cfg" by blast
  have ki: "map fst ?init = ?bids" by (simp add: comp_def case_prod_unfold)
  have si: "fst ` set ?init = set ?bids" using ki by (metis set_map)
  have sg: "fst ` set gen = set ?bids" using kg by (metis set_map)
  have sk: "fst ` set kill = set ?bids" using kk by (metis set_map)
  have sc: "fst ` set cfg = set ?bids" using kc by (metis set_map)
  have sp: "fst ` set ps = set ?bids" using kp kc by (metis set_map)
  have preds: "\<exists>l. map_of ps b = Some l \<and> set l \<subseteq> fst ` set ?init" if "b \<in> set ?bids" for b
  proof -
    from that sp obtain l where l: "map_of ps b = Some l" using in_keys_get [of b ps] by auto
    then have "(b, l) \<in> set ps" by (rule map_of_SomeD)
    with bp have "set l \<subseteq> fst ` set cfg" by auto
    with l sc si show ?thesis by simp
  qed
  have wf: "rd_wf ?bids ps gen kill ?init"
    unfolding rd_wf_def using si sg sk preds by simp
  have finU: "finite (gen_universe gen)" by (rule gen_universe_finite [OF fin])
  from rd_loop_returns [OF finU rd_inv_init wf, of 0 ?init] obtain n' ins' outs' where
    "rd_loop ?bids ps gen kill 0 ?init ?init = Some (Inr (n', ins', outs'))" by blast
  with ps show ?thesis by (simp add: reaching_definitions_analysis_def)
qed

lemma find_Some_mem: "find P xs = Some x \<Longrightarrow> x \<in> set xs"
  by (induction xs) (auto split: if_splits)

lemma edges_at_keys:
  assumes "i < length blocks"
  shows "set (edges_at blocks i) \<subseteq> fst ` set blocks"
proof -
  have nth: "map fst blocks ! j \<in> fst ` set blocks" if "j < length blocks" for j
    using that by (metis length_map nth_mem set_map)
  have fnd: "k \<in> fst ` set blocks"
    if "find (\<lambda>(k, b'). contains ''else'' (hd (code b'))) (drop (i + 1) blocks) = Some (k, b)" for k b
  proof -
    from that have "(k, b) \<in> set (drop (i + 1) blocks)" by (rule find_Some_mem)
    then have "(k, b) \<in> set blocks" by (rule in_set_dropD)
    then show ?thesis by force
  qed
  show ?thesis
    unfolding edges_at_def Let_def using nth fnd
    by (auto split: option.splits simp del: nth_map)
qed

text \<open>
  On the dictionaries the analyzer itself builds from a non-empty input no read of the
  solver fails, so the solver does not only terminate, it returns \<open>in\<close> and \<open>out\<close>
  sets: the graph builder returns a graph over the blocks' keys, the gen/kill computation
  returns dictionaries over the same keys with finite sets, every predecessor is a block.
\<close>

lemma pipeline_solver_returns:
  assumes nonempty: "lines \<noteq> []"
  defines "blocks \<equiv> create_basic_blocks lines (find_leaders lines)"
  shows "\<exists>cfg gen kill in_sets out_sets.
     build_cfg blocks = Inr cfg
     \<and> compute_gen_kill blocks (fst (find_definitions blocks)) (snd (find_definitions blocks))
          = Inr (gen, kill)
     \<and> reaching_definitions_analysis blocks cfg gen kill = Some (Inr (in_sets, out_sets))"
proof -
  note wf = pipeline_blocks_wf [OF nonempty, folded blocks_def]
  have ne: "\<forall>(k, b) \<in> set blocks. code b \<noteq> []" using wf(3) by auto
  let ?cfg = "map (\<lambda>j. (fst (blocks ! j), sort (remdups (edges_at blocks j)))) [0..<length blocks]"
  have cfg: "build_cfg blocks = Inr ?cfg" by (rule build_cfg_eq [OF wf(1) ne])
  have kc: "map fst ?cfg = map fst blocks" by (rule nth_equalityI) simp_all
  then have sc: "fst ` set ?cfg = fst ` set blocks" by (metis set_map)
  have edges: "\<forall>(b, es) \<in> set ?cfg. set es \<subseteq> fst ` set ?cfg"
    unfolding sc using edges_at_keys [of _ blocks] by auto
  obtain definitions var_to_defs where fd: "find_definitions blocks = (definitions, var_to_defs)"
    by (cases "find_definitions blocks")
  note fo = find_definitions_ok [OF fd]
  have idx: "\<forall>(d, info) \<in> set definitions. \<exists>ds. map_of var_to_defs (var info) = Some ds"
  proof (clarify)
    fix d info assume "(d, info) \<in> set definitions"
    then have "d \<in> var_ids definitions (var info)" by (auto simp: var_ids_def)
    then have "var_ids definitions (var info) \<noteq> {}" by auto
    with fo(3) show "\<exists>ds. map_of var_to_defs (var info) = Some ds" by simp
  qed
  from compute_gen_kill_ok [OF fo(1) fo(2) idx] obtain gen kill where
    res: "compute_gen_kill blocks definitions var_to_defs = Inr (gen, kill)"
    and ok: "gk_ok (map fst blocks) var_to_defs definitions (gen, kill)" by auto
  from ok have kg: "map fst gen = map fst blocks" and kk: "map fst kill = map fst blocks"
    and gb: "\<forall>B g x. map_of gen B = Some g \<longrightarrow> x \<in> g \<longrightarrow>
                      (\<exists>info. (x, info) \<in> set definitions \<and> block info = B)"
    by (auto simp: gk_ok_def)
  have dg: "distinct (map fst gen)" using kg wf(1) by simp
  have fin: "\<forall>(b, g) \<in> set gen. finite g"
  proof (clarify)
    fix b g assume "(b, g) \<in> set gen"
    with dg have "map_of gen b = Some g" by simp
    with gb have "g \<subseteq> fst ` set definitions" by force
    then show "finite g" by (rule finite_subset) simp
  qed
  from solver_returns [OF fin edges kc kg kk] obtain in_sets out_sets where
    "reaching_definitions_analysis blocks ?cfg gen kill = Some (Inr (in_sets, out_sets))" by blast
  with cfg res fd show ?thesis by auto
qed

end
